theory Spec2Isabelle
  imports Main "HOL-Library.Sublist" "HOL-Library.Monad_Syntax"
begin

section \<open>The markup transformer and the identifier generator of org-to-anki\<close>

text \<open>
  The development embeds the two functions \<^verbatim>\<open>htmlify\<close> and \<^verbatim>\<open>generate_id\<close> of
  \<^verbatim>\<open>main.py\<close>. A Python \<^verbatim>\<open>str\<close> is a \<^typ>\<open>string\<close>; one \<^typ>\<open>char\<close> stands for
  one code point, so the strings covered are those of code points below 256.
  An exception is the value \<^term>\<open>None\<close> of an option type.
\<close>

subsection \<open>String operations of the Python library\<close>

text \<open>
  \<^verbatim>\<open>str.isspace\<close> for one character; \<^verbatim>\<open>str.strip\<close> and the class \<^verbatim>\<open>\s\<close> of
  \<^verbatim>\<open>re\<close> on a \<^verbatim>\<open>str\<close> pattern use the same test. Below 256 the white space
  characters are TAB, LF, VT, FF, CR, the separators 0x1C to 0x1F, the space, NEL (0x85)
  and the no-break space (0xA0).
\<close>

definition isspace :: "char \<Rightarrow> bool" where
  "isspace c = (c \<in> set [CHR 0x09, CHR 0x0A, CHR 0x0B, CHR 0x0C, CHR 0x0D,
                         CHR 0x1C, CHR 0x1D, CHR 0x1E, CHR 0x1F, CHR 0x20,
                         CHR 0x85, CHR 0xA0])"

text \<open>\<^verbatim>\<open>s.lstrip(chars)\<close>: drop the leading characters that occur in \<^verbatim>\<open>chars\<close>.\<close>

definition lstrip :: "string \<Rightarrow> string \<Rightarrow> string" where
  "lstrip chars s = dropWhile (\<lambda>c. c \<in> set chars) s"

text \<open>\<^verbatim>\<open>s.strip()\<close>: drop leading and trailing white space.\<close>

definition strip :: "string \<Rightarrow> string" where
  "strip s = rev (dropWhile isspace (rev (dropWhile isspace s)))"

text \<open>\<^verbatim>\<open>s.replace(old, new)\<close> for a one-character \<^verbatim>\<open>old\<close>.\<close>

definition replace :: "char \<Rightarrow> string \<Rightarrow> string \<Rightarrow> string" where
  "replace old new s = concat (map (\<lambda>c. if c = old then new else [c]) s)"

text \<open>
  \<^verbatim>\<open>html.escape(s)\<close> with its default \<^verbatim>\<open>quote=True\<close>: five replacements in the
  library's order, the ampersand first.
\<close>

definition escape :: "string \<Rightarrow> string" where
  "escape s =
     (let s = replace (CHR ''&'') ''&amp;'' s;
          s = replace (CHR ''<'') ''&lt;'' s;
          s = replace (CHR ''>'') ''&gt;'' s;
          s = replace (CHR 0x22) ''&quot;'' s;
          s = replace (CHR 0x27) ''&#x27;'' s
      in s)"

text \<open>
  \<^verbatim>\<open>s.split("\n")\<close>: the pieces between line feeds; the empty string gives one
  empty piece.
\<close>

fun split_lines :: "string \<Rightarrow> string list" where
  "split_lines [] = [[]]"
| "split_lines (c # cs) =
     (if c = CHR 0x0A then [] # split_lines cs
      else (case split_lines cs of [] \<Rightarrow> [[c]] | l # ls \<Rightarrow> (c # l) # ls))"

subsection \<open>The three substitution passes\<close>

text \<open>
  The three patterns of \<^verbatim>\<open>htmlify\<close> have one shape: a literal \<open>pre\<close>, a group
  \<^verbatim>\<open>([^d]+)\<close> and a literal \<open>post\<close> that starts with \<open>d\<close>. At a position where
  \<open>pre\<close> matches, the greedy group takes the longest run free of \<open>d\<close>; a shorter run is
  followed by a character other than \<open>d\<close> and cannot be followed by \<open>post\<close>, so the
  pattern matches there exactly when that run is not empty and \<open>post\<close> follows it.
  \<^verbatim>\<open>re.sub\<close> replaces the leftmost match by \<open>ropen\<close>, the group and \<open>rclose\<close>,
  goes on behind the match, and copies a character at which the pattern does not match.
\<close>

function re_sub_span ::
  "string \<Rightarrow> char \<Rightarrow> string \<Rightarrow> string \<Rightarrow> string \<Rightarrow> string \<Rightarrow> string" where
  "re_sub_span pre d post ropen rclose [] = []"
| "re_sub_span pre d post ropen rclose (c # cs) =
     (let body = takeWhile (\<lambda>x. x \<noteq> d) (drop (length pre) (c # cs));
          rest = dropWhile (\<lambda>x. x \<noteq> d) (drop (length pre) (c # cs))
      in if prefix pre (c # cs) \<and> body \<noteq> [] \<and> prefix post rest
         then ropen @ body @ rclose
              @ re_sub_span pre d post ropen rclose (drop (length post) rest)
         else c # re_sub_span pre d post ropen rclose cs)"
  by pat_completeness auto
termination
proof (relation "measure (\<lambda>(pre, d, post, ropen, rclose, s). length s)")
  fix pre :: string and d :: char and post ropen rclose :: string and c :: char
    and cs body rest :: string
  assume b: "body = takeWhile (\<lambda>x. x \<noteq> d) (drop (length pre) (c # cs))"
    and r: "rest = dropWhile (\<lambda>x. x \<noteq> d) (drop (length pre) (c # cs))"
    and m: "prefix pre (c # cs) \<and> body \<noteq> [] \<and> prefix post rest"
  have "length body + length rest = length (drop (length pre) (c # cs))"
    unfolding b r by (metis length_append takeWhile_dropWhile_id)
  moreover have "0 < length body" using m by simp
  ultimately have "length rest < length (c # cs)"
    by (metis add.commute length_drop less_add_same_cancel1 less_imp_diff_less
        less_le_trans nat_le_linear not_less)
  then show "((pre, d, post, ropen, rclose, drop (length post) rest),
              (pre, d, post, ropen, rclose, c # cs))
             \<in> measure (\<lambda>(pre, d, post, ropen, rclose, s). length s)"
    by simp
qed simp_all

text \<open>\<^verbatim>\<open>re.sub(r"/([^/]+)/", r" <em>\1</em> ", text)\<close>\<close>

definition sub_em :: "string \<Rightarrow> string" where
  "sub_em text = re_sub_span ''/'' (CHR ''/'') ''/'' '' <em>'' ''</em> '' text"

text \<open>\<^verbatim>\<open>re.sub(r"\*([^\*]+)\*", r" <strong>\1</strong> ", text)\<close>\<close>

definition sub_strong :: "string \<Rightarrow> string" where
  "sub_strong text = re_sub_span ''*'' (CHR ''*'') ''*'' '' <strong>'' ''</strong> '' text"

text \<open>\<^verbatim>\<open>re.sub(r" =([^=]+)= ", r" <code>\1</code> ", text)\<close>\<close>

definition sub_code :: "string \<Rightarrow> string" where
  "sub_code text = re_sub_span '' ='' (CHR ''='') ''= '' '' <code>'' ''</code> '' text"

subsection \<open>The list restructuring loop\<close>

text \<open>
  \<^verbatim>\<open>re.match(r"^(\s)*-", line)\<close>: after the longest run of white space comes a
  hyphen (a shorter run is followed by white space, never by the hyphen).
\<close>

definition is_list_item :: "string \<Rightarrow> bool" where
  "is_list_item line =
     (case dropWhile isspace line of [] \<Rightarrow> False | c # _ \<Rightarrow> c = CHR ''-'')"

text \<open>\<^verbatim>\<open>re.match(r"^\s*", line).group(0)\<close>: the leading white space of the line.\<close>

definition leading_space :: "string \<Rightarrow> string" where
  "leading_space line = takeWhile isspace line"

text \<open>
  \<^verbatim>\<open>list_levels[-1]\<close> and \<^verbatim>\<open>list_levels.pop()\<close> raise \<^verbatim>\<open>IndexError\<close> on the
  empty list; the top of the stack is the last element.
\<close>

definition last_level :: "nat list \<Rightarrow> nat option" where
  "last_level list_levels = (if list_levels = [] then None else Some (last list_levels))"

definition pop :: "nat list \<Rightarrow> nat list option" where
  "pop list_levels = (if list_levels = [] then None else Some (butlast list_levels))"

text \<open>
  The state of the loop is the pair of \<^verbatim>\<open>list_levels\<close> and \<^verbatim>\<open>out_text\<close>.
  The loop \<^verbatim>\<open>while len(list_levels) > 0\<close> occurs twice in the source, with the same body.
\<close>

type_synonym state = "nat list \<times> string"

function close_lists :: "state \<Rightarrow> state option" where
  "close_lists (list_levels, out_text) =
     (if length list_levels > 0
      then (case pop list_levels of
              None \<Rightarrow> None
            | Some list_levels' \<Rightarrow> close_lists (list_levels', out_text @ ''</ul>''))
      else Some (list_levels, out_text))"
  by pat_completeness auto
termination
  by (relation "measure (\<lambda>(list_levels, out_text). length list_levels)")
     (auto simp: pop_def split: if_splits)

text \<open>The body of \<^verbatim>\<open>for line in text.split("\n")\<close>.\<close>

definition line_step :: "state \<Rightarrow> string \<Rightarrow> state option" where
  "line_step st line =
     (case st of (list_levels, out_text) \<Rightarrow>
        if is_list_item line then
          (let level = length (leading_space line) in
           do {
             opens \<leftarrow> (if length list_levels = 0 then Some True
                       else do { t \<leftarrow> last_level list_levels; Some (t < level) });
             (list_levels, out_text) \<leftarrow>
               (if opens then Some (list_levels @ [level], out_text @ ''<ul>'')
                else do {
                  t \<leftarrow> last_level list_levels;
                  if t > level
                  then do {
                    list_levels' \<leftarrow> pop list_levels;
                    Some (list_levels', out_text @ ''</ul>'')
                  }
                  else Some (list_levels, out_text)
                });
             Some (list_levels,
                   out_text @ ''<li>'' @ drop 1 (strip line) @ ''</li>'' @ [CHR 0x0A])
           })
        else
          do {
            (list_levels, out_text) \<leftarrow> close_lists (list_levels, out_text);
            Some (list_levels, out_text @ strip line @ ''<br>'' @ [CHR 0x0A])
          })"

fun for_lines :: "state \<Rightarrow> string list \<Rightarrow> state option" where
  "for_lines st [] = Some st"
| "for_lines st (line # lines) =
     (case line_step st line of None \<Rightarrow> None | Some st' \<Rightarrow> for_lines st' lines)"

subsection \<open>The transformer\<close>

definition htmlify :: "string \<Rightarrow> string option" where
  "htmlify text =
     (let text = lstrip ''*'' text;
          text = escape text;
          text = sub_em text;
          text = sub_strong text;
          text = sub_code text
      in do {
        st \<leftarrow> for_lines ([], []) (split_lines text);
        (list_levels, out_text) \<leftarrow> close_lists st;
        Some out_text
      })"

subsection \<open>The identifier generator\<close>

text \<open>
  An outline node as \<^verbatim>\<open>main\<close> reads it from the parser: heading, body, tags,
  properties and level. \<^verbatim>\<open>uuid.uuid5\<close> and \<^verbatim>\<open>str\<close> on its result belong to the
  Python library; \<^verbatim>\<open>generate_id\<close> takes them as the parameters \<open>uuid5\<close> and \<open>str\<close>.
\<close>

record node =
  heading :: string
  body :: string
  tags :: "string list"
  properties :: "(string \<times> string) list"
  level :: nat

definition generate_id ::
  "('ns \<Rightarrow> string \<Rightarrow> 'u) \<Rightarrow> ('u \<Rightarrow> string) \<Rightarrow> 'ns \<Rightarrow> node \<Rightarrow> string" where
  "generate_id uuid5 str namespace nd = str (uuid5 namespace (heading nd))"

subsection \<open>Notions for the statements\<close>

text \<open>
  The number of positions of \<open>s\<close> at which \<open>pat\<close> occurs. (An occurrence of
  \<^verbatim>\<open><ul>\<close> or of \<^verbatim>\<open></ul>\<close> cannot overlap another one.)
\<close>

fun count_sub :: "string \<Rightarrow> string \<Rightarrow> nat" where
  "count_sub pat [] = 0"
| "count_sub pat (c # cs) = (if prefix pat (c # cs) then 1 else 0) + count_sub pat cs"

text \<open>
  \<open>tagged K s\<close>: at every \<^verbatim>\<open><\<close> of \<open>s\<close> starts one of the tags listed in \<open>K\<close>.
\<close>

fun tagged :: "string list \<Rightarrow> string \<Rightarrow> bool" where
  "tagged K [] = True"
| "tagged K (c # cs) =
     ((c = CHR ''<'' \<longrightarrow> (\<exists>t \<in> set K. prefix t (c # cs))) \<and> tagged K cs)"

definition inline_tags :: "string list" where
  "inline_tags = [''<em>'', ''</em>'', ''<strong>'', ''</strong>'', ''<code>'', ''</code>'']"

definition em_code_tags :: "string list" where
  "em_code_tags = [''<em>'', ''</em>'', ''<code>'', ''</code>'']"

definition block_tags :: "string list" where
  "block_tags = [''<ul>'', ''</ul>'', ''<li>'', ''</li>'', ''<br>'']"

section \<open>Properties\<close>

subsection \<open>The loops in closed form\<close>

lemma close_lists_eq:
  "close_lists (ls, out) = Some ([], out @ concat (replicate (length ls) ''</ul>''))"
proof (induction "length ls" arbitrary: ls out)
  case 0
  then show ?case by simp
next
  case (Suc n)
  then have ne: "ls \<noteq> []" and len: "n = length (butlast ls)" by auto
  have "close_lists (ls, out) = close_lists (butlast ls, out @ ''</ul>'')"
    using ne by (simp add: pop_def)
  also have "\<dots> = Some ([], (out @ ''</ul>'') @ concat (replicate n ''</ul>''))"
    using Suc.hyps(1) [OF len] len by simp
  finally show ?case using Suc.hyps(2) [symmetric] by simp
qed

lemma line_step_item:
  "is_list_item line \<Longrightarrow>
   line_step (ls, out) line =
     Some (if ls = [] \<or> last ls < length (leading_space line)
           then (ls @ [length (leading_space line)],
                 out @ ''<ul>'' @ ''<li>'' @ drop 1 (strip line) @ ''</li>'' @ [CHR 0x0A])
           else if length (leading_space line) < last ls
           then (butlast ls,
                 out @ ''</ul>'' @ ''<li>'' @ drop 1 (strip line) @ ''</li>'' @ [CHR 0x0A])
           else (ls, out @ ''<li>'' @ drop 1 (strip line) @ ''</li>'' @ [CHR 0x0A]))"
  by (simp add: line_step_def last_level_def pop_def Let_def)

lemma line_step_text:
  "\<not> is_list_item line \<Longrightarrow>
   line_step (ls, out) line =
     Some ([], out @ concat (replicate (length ls) ''</ul>'') @ strip line
                @ ''<br>'' @ [CHR 0x0A])"
  by (simp add: line_step_def close_lists_eq del: close_lists.simps)

lemma line_step_total: "\<exists>st'. line_step st line = Some st'"
  by (cases st; cases "is_list_item line") (simp_all add: line_step_item line_step_text)

lemma for_lines_total: "\<exists>st'. for_lines st lines = Some st'"
proof (induction lines arbitrary: st)
  case Nil
  show ?case by simp
next
  case (Cons line lines)
  obtain st1 where "line_step st line = Some st1" using line_step_total by blast
  then show ?case using Cons.IH [of st1] by simp
qed

subsection \<open>Totality\<close>

text \<open>
  C9. \<^verbatim>\<open>htmlify\<close> returns a string for every input string: the substitution passes and
  both loops terminate (they are total functions here, each with its termination proof),
  and neither \<^verbatim>\<open>list_levels[-1]\<close> nor \<^verbatim>\<open>list_levels.pop()\<close> is ever reached with an
  empty stack, so no input leads to an exception.
\<close>

theorem htmlify_total: "\<exists>out_text. htmlify text = Some out_text"
proof -
  obtain ls out where
    "for_lines ([], [])
       (split_lines (sub_code (sub_strong (sub_em (escape (lstrip ''*'' text))))))
     = Some (ls, out)"
    using for_lines_total by (metis surj_pair)
  then show ?thesis by (simp add: htmlify_def close_lists_eq del: close_lists.simps)
qed

subsection \<open>The empty block\<close>

text \<open>
  C1, as the code behaves. \<^verbatim>\<open>"".split("\n")\<close> is the list of one empty line, so the
  loop runs once on the empty line, which is not a list item: \<^verbatim>\<open>htmlify("")\<close> is the
  line-break tag followed by the line feed. No list is open, so nothing is closed.
\<close>

theorem htmlify_empty: "split_lines [] = [[]] \<and> htmlify [] = Some ''<br>\<newline>''"
  by code_simp

text \<open>
  C1, as stated, fails: the result of \<^verbatim>\<open>htmlify("")\<close> is not the empty string.
\<close>

theorem htmlify_empty_not_empty: "htmlify [] \<noteq> Some []"
  by code_simp

subsection \<open>Lists\<close>

text \<open>
  C7. For the line \<^verbatim>\<open>- a\<close> followed by the line \<^verbatim>\<open>text\<close> the closing tag of the list
  comes before \<^verbatim>\<open>text<br>\<close>: the list is closed at the first line that is not a list
  item.
\<close>

theorem htmlify_list_then_text:
  "htmlify ''- a\<newline>text'' = Some ''<ul><li> a</li>\<newline></ul>text<br>\<newline>''"
  by code_simp

text \<open>
  C4. A list-item line whose depth is strictly less than the depth on top of the stack
  pops exactly one level and emits exactly one closing tag before its list-item element,
  however many levels lie between the two depths.
\<close>

theorem dedent_pops_once:
  "is_list_item line \<Longrightarrow> last_level ls = Some t \<Longrightarrow> length (leading_space line) < t \<Longrightarrow>
   line_step (ls, out) line =
     Some (butlast ls,
           out @ ''</ul>'' @ ''<li>'' @ drop 1 (strip line) @ ''</li>'' @ ''\<newline>'')"
  by (auto simp: line_step_item last_level_def split: if_splits)

theorem dedent_pops_once_witness:
  "is_list_item ''- d'' \<and> last_level [0, 2, 4] = Some 4 \<and> length (leading_space ''- d'') < 4 \<and>
   line_step ([0, 2, 4], ''x'') ''- d'' = Some ([0, 2], ''x</ul><li> d</li>\<newline>'')"
proof -
  have a: "is_list_item ''- d''" by code_simp
  have b: "last_level [0, 2, 4] = Some 4" by code_simp
  have c: "length (leading_space ''- d'') < 4" by code_simp
  have d: "drop (Suc 0) (strip ''- d'') = '' d''" by code_simp
  show ?thesis using a b c dedent_pops_once [OF a b c, of "''x''"] by (simp add: d)
qed

subsection \<open>The identifier generator\<close>

text \<open>
  C3. The identifier is a function of the namespace and of the heading alone: two nodes
  with the same heading get the same identifier under the same namespace, whatever
  their bodies, tags, properties and levels are (and, \<open>uuid5\<close> and \<open>str\<close> being
  functions, the same call gives the same identifier).
\<close>

theorem generate_id_heading_only:
  "heading n1 = heading n2 \<Longrightarrow>
   generate_id uuid5 str namespace n1 = generate_id uuid5 str namespace n2"
  by (simp add: generate_id_def)

theorem generate_id_heading_only_witness:
  "generate_id (\<lambda>ns key. ns @ key) (\<lambda>u. ''id-'' @ u) ''dns:''
     \<lparr>heading = ''Photosynthesis'', body = ''light'', tags = [], properties = [], level = 1\<rparr>
   = generate_id (\<lambda>ns key. ns @ key) (\<lambda>u. ''id-'' @ u) ''dns:''
     \<lparr>heading = ''Photosynthesis'', body = ''dark'', tags = [''x''],
      properties = [(''ID'', ''7'')], level = 3\<rparr>"
  by (rule generate_id_heading_only) simp

subsection \<open>The substitution passes\<close>

text \<open>
  C6, as the code behaves. On the block \<^verbatim>\<open>/a/ *b* =c=\<close> with a space before and after
  it, the passes run emphasis, strong, code, each over the whole block, and the result
  holds the three wrapped spans in that order. The strong span keeps a space on both
  sides; the first space of the line (before the emphasis) and the last one (behind the
  code span) are removed when the line is trimmed.
\<close>

theorem marker_example_passes:
  "sub_em '' /a/ *b* =c= '' = ''  <em>a</em>  *b* =c= '' \<and>
   sub_strong ''  <em>a</em>  *b* =c= '' = ''  <em>a</em>   <strong>b</strong>  =c= '' \<and>
   sub_code ''  <em>a</em>   <strong>b</strong>  =c= ''
     = ''  <em>a</em>   <strong>b</strong>  <code>c</code> '' \<and>
   htmlify '' /a/ *b* =c= '' = Some ''<em>a</em>   <strong>b</strong>  <code>c</code><br>\<newline>''"
  by code_simp

text \<open>
  C6, as stated, fails: in the result the emphasis span has no space before it and the
  code span has none behind it; and without the surrounding spaces in the input the
  final \<^verbatim>\<open>=c=\<close> is not replaced at all.
\<close>

theorem marker_example_padding_lost:
  "htmlify '' /a/ *b* =c= '' = Some ''<em>a</em>   <strong>b</strong>  <code>c</code><br>\<newline>'' \<and>
   \<not> sublist '' <em>a</em> '' ''<em>a</em>   <strong>b</strong>  <code>c</code><br>\<newline>'' \<and>
   \<not> sublist '' <code>c</code> '' ''<em>a</em>   <strong>b</strong>  <code>c</code><br>\<newline>'' \<and>
   htmlify ''/a/ *b* =c='' = Some ''<em>a</em>   <strong>b</strong>  =c=<br>\<newline>''"
  by code_simp

text \<open>
  A pass changes the text only where its whole pattern occurs.
\<close>

lemma re_sub_span_changes:
  "re_sub_span pre d post ropen rclose s \<noteq> s \<Longrightarrow>
   \<exists>p b q. s = p @ pre @ b @ post @ q \<and> b \<noteq> [] \<and> d \<notin> set b"
proof (induction pre d post ropen rclose s rule: re_sub_span.induct)
  case (1 pre d post ropen rclose)
  then show ?case by simp
next
  case (2 pre d post ropen rclose c cs)
  let ?body = "takeWhile (\<lambda>x. x \<noteq> d) (drop (length pre) (c # cs))"
  let ?rest = "dropWhile (\<lambda>x. x \<noteq> d) (drop (length pre) (c # cs))"
  show ?case
  proof (cases "prefix pre (c # cs) \<and> ?body \<noteq> [] \<and> prefix post ?rest")
    case True
    then obtain q where q: "?rest = post @ q" by (auto simp: prefix_def)
    have "c # cs = pre @ drop (length pre) (c # cs)"
      using True by (metis append_eq_conv_conj prefix_def)
    also have "drop (length pre) (c # cs) = ?body @ ?rest" by simp
    finally have "c # cs = [] @ pre @ ?body @ post @ q" using q by simp
    moreover have "d \<notin> set ?body" by (metis (mono_tags, lifting) set_takeWhileD)
    ultimately show ?thesis using True by blast
  next
    case False
    then have "re_sub_span pre d post ropen rclose cs \<noteq> cs"
      using "2.prems" by (auto simp: Let_def)
    then obtain p b q where "cs = p @ pre @ b @ post @ q" "b \<noteq> []" "d \<notin> set b"
      using "2.IH"(2) [OF refl refl False] by blast
    then have "c # cs = (c # p) @ pre @ b @ post @ q \<and> b \<noteq> [] \<and> d \<notin> set b" by simp
    then show ?thesis by blast
  qed
qed


subsection \<open>Where tags stand in the text\<close>

text \<open>
  After escaping the text holds no \<^verbatim>\<open><\<close>; each pass writes whole tags and leaves the
  tags of the passes before it intact, since no tag holds a character the pass looks for.
  Splitting into lines and trimming do not cut a tag either.
\<close>

lemma prefix_cut: "prefix t (u @ x # v) \<Longrightarrow> x \<notin> set t \<Longrightarrow> prefix t u"
  by (auto simp: prefix_append prefix_Cons)

lemma tagged_append: "tagged K a \<Longrightarrow> tagged K b \<Longrightarrow> tagged K (a @ b)"
proof (induction a)
  case Nil
  then show ?case by simp
next
  case (Cons c a)
  have "prefix t (c # a) \<Longrightarrow> prefix t (c # a @ b)" for t
    by (metis append_Cons prefix_prefix)
  with Cons show ?case by auto
qed

lemma tagged_suffix: "tagged K (a @ b) \<Longrightarrow> tagged K b"
  by (induction a) auto

lemma tagged_cut:
  "tagged K (a @ x # b) \<Longrightarrow> \<forall>t \<in> set K. x \<notin> set t \<Longrightarrow> tagged K a"
proof (induction a)
  case Nil
  show ?case by simp
next
  case (Cons c a)
  have "prefix t (c # a @ x # b) \<Longrightarrow> t \<in> set K \<Longrightarrow> prefix t (c # a)" for t
    using prefix_cut [of t "c # a" x b] Cons.prems(2) by simp
  with Cons show ?case by auto
qed

lemma tagged_no_lt: "CHR ''<'' \<notin> set s \<Longrightarrow> tagged K s"
  by (induction s) auto

lemma tagged_mono: "tagged K s \<Longrightarrow> set K \<subseteq> set K' \<Longrightarrow> tagged K' s"
  by (induction s) auto

lemma tagged_takeWhile:
  "tagged K s \<Longrightarrow> \<forall>t \<in> set K. \<forall>c \<in> set t. P c \<Longrightarrow> tagged K (takeWhile P s)"
proof -
  assume t: "tagged K s" and k: "\<forall>t \<in> set K. \<forall>c \<in> set t. P c"
  have s: "s = takeWhile P s @ dropWhile P s" by simp
  show ?thesis
  proof (cases "dropWhile P s")
    case Nil
    then show ?thesis using t s by (metis append_Nil2)
  next
    case (Cons x r)
    then have "\<not> P x" by (metis hd_dropWhile list.distinct(1) list.sel(1))
    then have "\<forall>t \<in> set K. x \<notin> set t" using k by blast
    moreover have "tagged K (takeWhile P s @ x # r)" using t s Cons by metis
    ultimately show ?thesis by (rule tagged_cut [rotated])
  qed
qed

lemma tagged_dropWhile: "tagged K s \<Longrightarrow> tagged K (dropWhile P s)"
  by (metis tagged_suffix takeWhile_dropWhile_id)

lemma tagged_drop: "tagged K s \<Longrightarrow> tagged K (drop n s)"
  by (metis tagged_suffix append_take_drop_id)

lemma re_sub_span_match:
  "prefix pre (c # cs) \<and> takeWhile (\<lambda>y. y \<noteq> d) (drop (length pre) (c # cs)) \<noteq> []
     \<and> prefix post (dropWhile (\<lambda>y. y \<noteq> d) (drop (length pre) (c # cs))) \<Longrightarrow>
   re_sub_span pre d post ropen rclose (c # cs)
   = ropen @ takeWhile (\<lambda>y. y \<noteq> d) (drop (length pre) (c # cs)) @ rclose
     @ re_sub_span pre d post ropen rclose
         (drop (length post) (dropWhile (\<lambda>y. y \<noteq> d) (drop (length pre) (c # cs))))"
  by (simp only: re_sub_span.simps Let_def simp_thms if_True)

lemma re_sub_span_skip:
  "\<not> (prefix pre (c # cs) \<and> takeWhile (\<lambda>y. y \<noteq> d) (drop (length pre) (c # cs)) \<noteq> []
     \<and> prefix post (dropWhile (\<lambda>y. y \<noteq> d) (drop (length pre) (c # cs)))) \<Longrightarrow>
   re_sub_span pre d post ropen rclose (c # cs) = c # re_sub_span pre d post ropen rclose cs"
  by (simp only: re_sub_span.simps Let_def simp_thms if_False)

lemma prefix_re_sub_span:
  "prefix w s \<Longrightarrow> pre \<noteq> [] \<Longrightarrow> hd pre \<notin> set w \<Longrightarrow>
   prefix w (re_sub_span pre d post ropen rclose s)"
proof (induction w arbitrary: s)
  case Nil
  show ?case by simp
next
  case (Cons a w)
  then obtain s' where s: "s = a # s'" and p: "prefix w s'" by (cases s) auto
  have "\<not> prefix pre (a # s')"
    using Cons.prems(2,3) by (cases pre) auto
  then have "re_sub_span pre d post ropen rclose (a # s')
             = a # re_sub_span pre d post ropen rclose s'"
    by (simp add: Let_def)
  then show ?case using Cons.IH [OF p] Cons.prems(2,3) s by simp
qed

lemma tagged_re_sub_span:
  "tagged K s \<Longrightarrow> pre \<noteq> [] \<Longrightarrow> \<forall>t \<in> set K. hd pre \<notin> set t \<and> d \<notin> set t \<Longrightarrow>
   set K \<subseteq> set K' \<Longrightarrow> tagged K' ropen \<Longrightarrow> tagged K' rclose \<Longrightarrow>
   tagged K' (re_sub_span pre d post ropen rclose s)"
proof (induction pre d post ropen rclose s rule: re_sub_span.induct)
  case (1 pre d post ropen rclose)
  show ?case by simp
next
  case (2 pre d post ropen rclose c cs)
  let ?body = "takeWhile (\<lambda>y. y \<noteq> d) (drop (length pre) (c # cs))"
  let ?rest = "dropWhile (\<lambda>y. y \<noteq> d) (drop (length pre) (c # cs))"
  note k = "2.prems"(3) and sub = "2.prems"(4)
  show ?case
  proof (cases "prefix pre (c # cs) \<and> ?body \<noteq> [] \<and> prefix post ?rest")
    case True
    have d: "tagged K (drop (length pre) (c # cs))"
      using "2.prems"(1) by (rule tagged_drop)
    have "\<forall>t \<in> set K. \<forall>c \<in> set t. c \<noteq> d" using k by blast
    with d have "tagged K ?body" by (rule tagged_takeWhile)
    then have b: "tagged K' ?body" using sub by (rule tagged_mono)
    have "tagged K ?rest" using d by (rule tagged_dropWhile)
    then have "tagged K (drop (length post) ?rest)" by (rule tagged_drop)
    then have r: "tagged K' (re_sub_span pre d post ropen rclose (drop (length post) ?rest))"
      using "2.IH"(1) [OF refl refl True] "2.prems"(2-6) by simp
    show ?thesis
      unfolding re_sub_span_match [OF True]
      using b r "2.prems"(5,6) by (intro tagged_append)
  next
    case False
    have t: "tagged K cs" using "2.prems"(1) by simp
    then have r: "tagged K' (re_sub_span pre d post ropen rclose cs)"
      using "2.IH"(2) [OF refl refl False] "2.prems"(2-6) by simp
    have "\<exists>t \<in> set K'. prefix t (c # re_sub_span pre d post ropen rclose cs)"
      if "c = CHR ''<''"
    proof -
      have "\<exists>t \<in> set K. prefix t (c # cs)"
        using "2.prems"(1) that by simp
      then obtain t where tk: "t \<in> set K" and pt: "prefix t (c # cs)" by blast
      show ?thesis
      proof (cases t)
        case Nil
        then have "[] \<in> set K'" using tk sub by blast
        then show ?thesis by (rule bexI [rotated]) simp
      next
        case (Cons a t')
        then have "prefix t' cs" and "a = c" using pt by auto
        moreover have "hd pre \<notin> set t'" using k tk Cons by auto
        ultimately have "prefix t (c # re_sub_span pre d post ropen rclose cs)"
          using Cons prefix_re_sub_span [OF _ "2.prems"(2)] by simp
        then show ?thesis using tk sub by blast
      qed
    qed
    then show ?thesis
      unfolding re_sub_span_skip [OF False] using r by simp
  qed
qed

lemma replace_set:
  "c \<in> set (replace old new s) \<Longrightarrow> (c \<in> set s \<and> c \<noteq> old) \<or> c \<in> set new"
  by (auto simp: replace_def split: if_splits)

lemma escape_no_lt: "CHR ''<'' \<notin> set (escape s)"
proof -
  have a: "CHR ''<'' \<notin> set (replace (CHR ''<'') ''&lt;'' x)" for x
    using replace_set [of "CHR ''<''" "CHR ''<''" "''&lt;''" x] by auto
  have b: "CHR ''<'' \<notin> set x \<Longrightarrow> CHR ''<'' \<notin> set new \<Longrightarrow>
           CHR ''<'' \<notin> set (replace old new x)" for x old new
    using replace_set [of "CHR ''<''" old new x] by auto
  show ?thesis unfolding escape_def Let_def by (intro b a) simp_all
qed

lemma tagged_tag:
  assumes "CHR ''<'' # t \<in> set K" and "CHR ''<'' \<notin> set l" and "CHR ''<'' \<notin> set (t @ r)"
  shows "tagged K (l @ CHR ''<'' # t @ r)"
proof -
  have "prefix (CHR ''<'' # t) (CHR ''<'' # t @ r)" by simp
  then have "\<exists>u \<in> set K. prefix u (CHR ''<'' # t @ r)" using assms(1) by blast
  then have "tagged K (CHR ''<'' # t @ r)" using assms(3) tagged_no_lt by simp
  with tagged_no_lt [OF assms(2)] show ?thesis by (rule tagged_append)
qed

lemma tagged_sub_em:
  assumes "CHR ''<'' \<notin> set s" and "set [''<em>'', ''</em>''] \<subseteq> set K"
  shows "tagged K (sub_em s)"
proof -
  have "tagged K '' <em>''" using tagged_tag [of "''em>''" K "'' ''" "[]"] assms(2) by simp
  moreover have "tagged K ''</em> ''"
    using tagged_tag [of "''/em>''" K "[]" "'' ''"] assms(2) by simp
  moreover have "tagged [] s" using assms(1) by (rule tagged_no_lt)
  ultimately show ?thesis
    unfolding sub_em_def by (intro tagged_re_sub_span [where K = "[]"]) simp_all
qed

lemma tagged_sub_strong:
  assumes "tagged K s" and "\<forall>t \<in> set K. CHR ''*'' \<notin> set t"
    and "set [''<strong>'', ''</strong>''] \<subseteq> set K"
  shows "tagged K (sub_strong s)"
proof -
  have "tagged K '' <strong>''"
    using tagged_tag [of "''strong>''" K "'' ''" "[]"] assms(3) by simp
  moreover have "tagged K ''</strong> ''"
    using tagged_tag [of "''/strong>''" K "[]" "'' ''"] assms(3) by simp
  ultimately show ?thesis
    unfolding sub_strong_def using assms(1,2)
    by (intro tagged_re_sub_span [where K = K]) simp_all
qed

lemma tagged_sub_code:
  assumes "tagged K s" and "\<forall>t \<in> set K. CHR '' '' \<notin> set t \<and> CHR ''='' \<notin> set t"
    and "set [''<code>'', ''</code>''] \<subseteq> set K"
  shows "tagged K (sub_code s)"
proof -
  have "tagged K '' <code>''"
    using tagged_tag [of "''code>''" K "'' ''" "[]"] assms(3) by simp
  moreover have "tagged K ''</code> ''"
    using tagged_tag [of "''/code>''" K "[]" "'' ''"] assms(3) by simp
  ultimately show ?thesis
    unfolding sub_code_def using assms(1,2)
    by (intro tagged_re_sub_span [where K = K]) simp_all
qed

lemma tagged_marked: "tagged inline_tags (sub_code (sub_strong (sub_em (escape s))))"
  by (intro tagged_sub_code tagged_sub_strong tagged_sub_em escape_no_lt)
     (simp_all add: inline_tags_def)

lemma split_lines_hd: "\<exists>ls. split_lines s = takeWhile (\<lambda>c. c \<noteq> CHR 0x0A) s # ls"
  by (induction s) auto

lemma dropWhile_cases:
  "dropWhile P xs = [] \<or> (\<exists>x r. dropWhile P xs = x # r \<and> \<not> P x)"
  by (induction xs) simp_all

lemma split_lines_decomp:
  "line \<in> set (split_lines s) \<Longrightarrow>
   \<exists>p q. s = p @ line @ q \<and> (q = [] \<or> (\<exists>q'. q = CHR 0x0A # q'))"
proof (induction s arbitrary: line)
  case Nil
  then show ?case by simp
next
  case (Cons c cs)
  let ?first = "takeWhile (\<lambda>c. c \<noteq> CHR 0x0A) cs"
  obtain ls where ls: "split_lines cs = ?first # ls"
    using split_lines_hd by blast
  have tail: "\<exists>p q. c # cs = p @ l @ q \<and> (q = [] \<or> (\<exists>q'. q = CHR 0x0A # q'))"
    if l: "l \<in> set (split_lines cs)" for l
  proof -
    obtain p q where "cs = p @ l @ q" "q = [] \<or> (\<exists>q'. q = CHR 0x0A # q')"
      using Cons.IH [OF l] by blast
    then have "c # cs = (c # p) @ l @ q \<and> (q = [] \<or> (\<exists>q'. q = CHR 0x0A # q'))" by simp
    then show ?thesis by blast
  qed
  show ?case
  proof (cases "c = CHR 0x0A")
    case True
    then have "split_lines (c # cs) = [] # split_lines cs" by simp
    then have "line = [] \<or> line \<in> set (split_lines cs)" using Cons.prems by simp
    then show ?thesis
    proof
      assume "line = []"
      then have "c # cs = [] @ line @ (c # cs) \<and> (\<exists>q'. c # cs = CHR 0x0A # q')"
        using True by simp
      then show ?thesis by blast
    qed (rule tail)
  next
    case False
    then have "split_lines (c # cs) = (c # ?first) # ls" by (simp add: ls)
    then have "line = c # ?first \<or> line \<in> set ls" using Cons.prems by simp
    then show ?thesis
    proof
      assume l: "line = c # ?first"
      let ?q = "dropWhile (\<lambda>c. c \<noteq> CHR 0x0A) cs"
      have "c # cs = [] @ line @ ?q" using l by simp
      moreover have "?q = [] \<or> (\<exists>q'. ?q = CHR 0x0A # q')"
        using dropWhile_cases [of "\<lambda>c. c \<noteq> CHR 0x0A" cs] by blast
      ultimately show ?thesis by blast
    next
      assume "line \<in> set ls"
      then have "line \<in> set (split_lines cs)" by (simp add: ls)
      then show ?thesis by (rule tail)
    qed
  qed
qed

lemma tagged_line:
  assumes "tagged K s" and "\<forall>t \<in> set K. CHR 0x0A \<notin> set t" and "line \<in> set (split_lines s)"
  shows "tagged K line"
proof -
  obtain p q where s: "s = p @ line @ q" and q: "q = [] \<or> (\<exists>q'. q = CHR 0x0A # q')"
    using split_lines_decomp [OF assms(3)] by blast
  have t: "tagged K (line @ q)" using assms(1) s tagged_suffix by blast
  from q show ?thesis
  proof
    assume "q = []"
    then show ?thesis using t by simp
  next
    assume "\<exists>q'. q = CHR 0x0A # q'"
    then obtain q' where "q = CHR 0x0A # q'" by blast
    then have "tagged K (line @ CHR 0x0A # q')" using t by simp
    then show ?thesis using assms(2) by (rule tagged_cut)
  qed
qed

lemma tagged_strip:
  assumes "tagged K s" and "\<forall>t \<in> set K. \<forall>c \<in> set t. \<not> isspace c"
  shows "tagged K (strip s)"
proof -
  let ?m = "dropWhile isspace s"
  let ?w = "rev (takeWhile isspace (rev ?m))"
  have m: "tagged K ?m" using assms(1) by (rule tagged_dropWhile)
  have "?m = rev (dropWhile isspace (rev ?m)) @ ?w"
    by (metis rev_append rev_rev_ident takeWhile_dropWhile_id)
  then have d: "?m = strip s @ ?w" by (simp only: strip_def)
  show ?thesis
  proof (cases ?w)
    case Nil
    then show ?thesis using d m by simp
  next
    case (Cons x w')
    then have "x \<in> set (takeWhile isspace (rev ?m))" by (metis list.set_intros(1) set_rev)
    then have "isspace x" by (rule set_takeWhileD [THEN conjunct2])
    then have "\<forall>t \<in> set K. x \<notin> set t" using assms(2) by blast
    moreover have "tagged K (strip s @ x # w')" using d m Cons by simp
    ultimately show ?thesis by (rule tagged_cut [rotated])
  qed
qed

subsection \<open>The balance of the list tags\<close>

lemma count_sub_append:
  assumes "tagged K a"
    and "\<forall>t \<in> set K. t = pat \<or> (\<not> prefix t pat \<and> \<not> prefix pat t)"
    and "pat = CHR ''<'' # pat'"
  shows "count_sub pat (a @ b) = count_sub pat a + count_sub pat b"
  using assms(1)
proof (induction a)
  case Nil
  show ?case by simp
next
  case (Cons c a)
  have "prefix pat (c # a @ b) = prefix pat (c # a)"
  proof (cases "c = CHR ''<''")
    case False
    then show ?thesis using assms(3) by simp
  next
    case True
    then obtain t where t: "t \<in> set K" and p: "prefix t (c # a)"
      using Cons.prems by auto
    have p': "prefix t (c # a @ b)" using p by (metis append_Cons prefix_prefix)
    show ?thesis
    proof (cases "t = pat")
      case True
      then show ?thesis using p p' by simp
    next
      case False
      then have n: "\<not> prefix t pat \<and> \<not> prefix pat t" using assms(2) t by blast
      have "\<not> prefix pat (c # a @ b)" using n p' prefix_same_cases by blast
      moreover have "\<not> prefix pat (c # a)" using n p prefix_same_cases by blast
      ultimately show ?thesis by simp
    qed
  qed
  moreover have "tagged K a" using Cons.prems by simp
  ultimately show ?case using Cons.IH by simp
qed

lemma count_sub_concat:
  assumes "\<forall>p \<in> set ps. tagged K p"
    and "\<forall>t \<in> set K. t = pat \<or> (\<not> prefix t pat \<and> \<not> prefix pat t)"
    and "pat = CHR ''<'' # pat'"
  shows "count_sub pat (concat ps) = sum_list (map (count_sub pat) ps)"
  using assms(1)
proof (induction ps)
  case Nil
  show ?case by simp
next
  case (Cons p ps)
  then show ?case using count_sub_append [OF _ assms(2,3), of p "concat ps"] by simp
qed

lemma count_sub_zero:
  assumes "tagged K s"
    and "\<forall>t \<in> set K. \<not> prefix t pat \<and> \<not> prefix pat t"
    and "pat = CHR ''<'' # pat'"
  shows "count_sub pat s = 0"
  using assms(1)
proof (induction s)
  case Nil
  show ?case by simp
next
  case (Cons c s)
  have "\<not> prefix pat (c # s)"
  proof (cases "c = CHR ''<''")
    case False
    then show ?thesis using assms(3) by simp
  next
    case True
    then obtain t where t: "t \<in> set K" and p: "prefix t (c # s)"
      using Cons.prems by auto
    then show ?thesis using assms(2) prefix_same_cases by blast
  qed
  then show ?case using Cons by simp
qed


lemma tagged_concat: "\<forall>p \<in> set ps. tagged K p \<Longrightarrow> tagged K (concat ps)"
  by (induction ps) (simp_all add: tagged_append)

lemma all_tags_ul:
  "\<forall>t \<in> set (inline_tags @ block_tags).
     t = ''<ul>'' \<or> (\<not> prefix t ''<ul>'' \<and> \<not> prefix ''<ul>'' t)"
  "\<forall>t \<in> set (inline_tags @ block_tags).
     t = ''</ul>'' \<or> (\<not> prefix t ''</ul>'' \<and> \<not> prefix ''</ul>'' t)"
  by (simp_all add: inline_tags_def block_tags_def)

lemma inline_tags_ul:
  "\<forall>t \<in> set inline_tags. \<not> prefix t ''<ul>'' \<and> \<not> prefix ''<ul>'' t"
  "\<forall>t \<in> set inline_tags. \<not> prefix t ''</ul>'' \<and> \<not> prefix ''</ul>'' t"
  by (simp_all add: inline_tags_def)

lemma inline_tags_plain:
  "\<forall>t \<in> set inline_tags. \<forall>c \<in> set t. \<not> isspace c"
  "\<forall>t \<in> set inline_tags. CHR 0x0A \<notin> set t"
  by (simp_all add: inline_tags_def isspace_def)

lemma emit:
  assumes "tagged (inline_tags @ block_tags) out"
    and "\<forall>p \<in> set ps. tagged (inline_tags @ block_tags) p"
  shows "tagged (inline_tags @ block_tags) (out @ concat ps)"
    and "count_sub ''<ul>'' (out @ concat ps)
         = count_sub ''<ul>'' out + sum_list (map (count_sub ''<ul>'') ps)"
    and "count_sub ''</ul>'' (out @ concat ps)
         = count_sub ''</ul>'' out + sum_list (map (count_sub ''</ul>'') ps)"
proof -
  show "tagged (inline_tags @ block_tags) (out @ concat ps)"
    using assms by (intro tagged_append tagged_concat)
  show "count_sub ''<ul>'' (out @ concat ps)
        = count_sub ''<ul>'' out + sum_list (map (count_sub ''<ul>'') ps)"
    using count_sub_append [OF assms(1) all_tags_ul(1)]
      count_sub_concat [OF assms(2) all_tags_ul(1)] by simp
  show "count_sub ''</ul>'' (out @ concat ps)
        = count_sub ''</ul>'' out + sum_list (map (count_sub ''</ul>'') ps)"
    using count_sub_append [OF assms(1) all_tags_ul(2)]
      count_sub_concat [OF assms(2) all_tags_ul(2)] by simp
qed

lemma block_literals:
  "tagged (inline_tags @ block_tags) ''<ul>''"
  "tagged (inline_tags @ block_tags) ''</ul>''"
  "tagged (inline_tags @ block_tags) ''<li>''"
  "tagged (inline_tags @ block_tags) ''</li>''"
  "tagged (inline_tags @ block_tags) ''<br>''"
  "tagged (inline_tags @ block_tags) [CHR 0x0A]"
  by (simp_all add: inline_tags_def block_tags_def)

lemma content_facts:
  assumes "tagged inline_tags s"
  shows "tagged (inline_tags @ block_tags) s"
    and "count_sub ''<ul>'' s = 0" and "count_sub ''</ul>'' s = 0"
proof -
  show "tagged (inline_tags @ block_tags) s" using assms by (rule tagged_mono) simp
  show "count_sub ''<ul>'' s = 0" using assms inline_tags_ul(1) by (rule count_sub_zero) simp
  show "count_sub ''</ul>'' s = 0" using assms inline_tags_ul(2) by (rule count_sub_zero) simp
qed

lemma line_step_balance:
  assumes out: "tagged (inline_tags @ block_tags) out"
    and line: "tagged inline_tags line"
    and bal: "count_sub ''<ul>'' out = count_sub ''</ul>'' out + length ls"
    and step: "line_step (ls, out) line = Some (ls', out')"
  shows "tagged (inline_tags @ block_tags) out' \<and>
         count_sub ''<ul>'' out' = count_sub ''</ul>'' out' + length ls'"
proof (cases "is_list_item line")
  case True
  let ?c = "drop 1 (strip line)"
  have "tagged inline_tags ?c"
    using line inline_tags_plain(1) by (intro tagged_drop tagged_strip)
  note c = content_facts [OF this]
  let ?item = "[''<li>'', ?c, ''</li>'', [CHR 0x0A]]"
  consider (push) "ls = [] \<or> last ls < length (leading_space line)"
    | (pop) "ls \<noteq> []" "\<not> last ls < length (leading_space line)"
        "length (leading_space line) < last ls"
    | (same) "ls \<noteq> []" "\<not> last ls < length (leading_space line)"
        "\<not> length (leading_space line) < last ls"
    by blast
  then show ?thesis
  proof cases
    case push
    then have e: "ls' = ls @ [length (leading_space line)]"
      "out' = out @ concat (''<ul>'' # ?item)"
      using step line_step_item [OF True, of ls out] by simp_all
    have p: "\<forall>p \<in> set (''<ul>'' # ?item). tagged (inline_tags @ block_tags) p"
      using c(1) block_literals by simp
    show ?thesis
      unfolding e using emit [OF out p] bal c(2,3) by simp
  next
    case pop
    then have e: "ls' = butlast ls" "out' = out @ concat (''</ul>'' # ?item)"
      using step line_step_item [OF True, of ls out] by simp_all
    have p: "\<forall>p \<in> set (''</ul>'' # ?item). tagged (inline_tags @ block_tags) p"
      using c(1) block_literals by simp
    have "length ls = Suc (length (butlast ls))" using pop(1) by simp
    then show ?thesis
      unfolding e using emit [OF out p] bal c(2,3) by simp
  next
    case same
    then have e: "ls' = ls" "out' = out @ concat ?item"
      using step line_step_item [OF True, of ls out] by simp_all
    have p: "\<forall>p \<in> set ?item. tagged (inline_tags @ block_tags) p"
      using c(1) block_literals by simp
    show ?thesis
      unfolding e using emit [OF out p] bal c(2,3) by simp
  qed
next
  case False
  let ?c = "strip line"
  have "tagged inline_tags ?c"
    using line inline_tags_plain(1) by (rule tagged_strip)
  note c = content_facts [OF this]
  let ?ps = "replicate (length ls) ''</ul>'' @ [?c, ''<br>'', [CHR 0x0A]]"
  have e: "ls' = []" "out' = out @ concat ?ps"
    using step line_step_text [OF False, of ls out] by simp_all
  have p: "\<forall>p \<in> set ?ps. tagged (inline_tags @ block_tags) p"
    using c(1) block_literals by auto
  have "sum_list (map (count_sub ''<ul>'') ?ps) = 0"
    using c(2) by (simp add: sum_list_replicate)
  moreover have "sum_list (map (count_sub ''</ul>'') ?ps) = length ls"
    using c(3) by (simp add: sum_list_replicate)
  ultimately show ?thesis
    unfolding e using emit [OF out p] bal by simp
qed


lemma for_lines_balance:
  assumes "\<forall>line \<in> set lines. tagged inline_tags line"
    and "tagged (inline_tags @ block_tags) out"
    and "count_sub ''<ul>'' out = count_sub ''</ul>'' out + length ls"
    and "for_lines (ls, out) lines = Some (ls', out')"
  shows "tagged (inline_tags @ block_tags) out' \<and>
         count_sub ''<ul>'' out' = count_sub ''</ul>'' out' + length ls'"
  using assms
proof (induction lines arbitrary: ls out)
  case Nil
  then show ?case by simp
next
  case (Cons line lines)
  obtain ls1 out1 where s1: "line_step (ls, out) line = Some (ls1, out1)"
    using line_step_total by (metis surj_pair)
  have l: "tagged inline_tags line" using Cons.prems(1) by simp
  have i1: "tagged (inline_tags @ block_tags) out1 \<and>
            count_sub ''<ul>'' out1 = count_sub ''</ul>'' out1 + length ls1"
    using line_step_balance [OF Cons.prems(2) l Cons.prems(3) s1] .
  have r: "for_lines (ls1, out1) lines = Some (ls', out')"
    using Cons.prems(4) s1 by simp
  show ?case
    using Cons.IH [OF _ _ _ r] Cons.prems(1) i1 by simp
qed

text \<open>
  C2. In the output of \<^verbatim>\<open>htmlify\<close>, for every input, \<^verbatim>\<open><ul>\<close> occurs exactly as
  often as \<^verbatim>\<open></ul>\<close>. The text of the lines holds neither (its only tags are those of
  the three passes), so the occurrences are the tags that the loop writes: one
  \<^verbatim>\<open><ul>\<close> for each level pushed, one \<^verbatim>\<open></ul>\<close> for each level popped, and the
  final loop pops what is left.
\<close>

theorem htmlify_balanced:
  "\<exists>out_text. htmlify text = Some out_text \<and>
     count_sub ''<ul>'' out_text = count_sub ''</ul>'' out_text"
proof -
  let ?marked = "sub_code (sub_strong (sub_em (escape (lstrip ''*'' text))))"
  obtain ls out where f: "for_lines ([], []) (split_lines ?marked) = Some (ls, out)"
    using for_lines_total by (metis surj_pair)
  have "\<forall>line \<in> set (split_lines ?marked). tagged inline_tags line"
    using tagged_line [OF tagged_marked inline_tags_plain(2)] by blast
  then have i: "tagged (inline_tags @ block_tags) out \<and>
                count_sub ''<ul>'' out = count_sub ''</ul>'' out + length ls"
    using for_lines_balance [OF _ _ _ f] by simp
  let ?ps = "replicate (length ls) ''</ul>''"
  have h: "htmlify text = Some (out @ concat ?ps)"
    using f by (simp add: htmlify_def close_lists_eq del: close_lists.simps)
  have p: "\<forall>p \<in> set ?ps. tagged (inline_tags @ block_tags) p"
    using block_literals by simp
  have "count_sub ''<ul>'' (out @ concat ?ps) = count_sub ''</ul>'' (out @ concat ?ps)"
    using emit(2,3) [OF conjunct1 [OF i] p] i by (simp add: sum_list_replicate)
  then show ?thesis using h by simp
qed

subsection \<open>Escaping\<close>

text \<open>
  A piece of text that holds none of the characters an operation acts on is found again
  in the result of the operation.
\<close>

lemma sublist_cut:
  assumes "sublist w (a @ x # b)" and "x \<notin> set w"
  shows "sublist w a \<or> sublist w b"
proof -
  have p: "prefix v (x # b) \<Longrightarrow> set v \<subseteq> set w \<Longrightarrow> v = []" for v
    using assms(2) by (cases v) auto
  from assms(1) consider "sublist w a" | "sublist w (x # b)"
    | w1 w2 where "w = w1 @ w2" "suffix w1 a" "prefix w2 (x # b)"
    unfolding sublist_append by blast
  then show ?thesis
  proof cases
    case 1
    then show ?thesis by blast
  next
    case 2
    then have "prefix w (x # b) \<or> sublist w b" by (simp add: sublist_Cons_right)
    then show ?thesis using p [of w] by auto
  next
    case 3
    then have "w2 = []" using p [of w2] by simp
    then show ?thesis using 3 by auto
  qed
qed

lemma sublist_cut_list:
  "sublist w (a @ m @ b) \<Longrightarrow> m \<noteq> [] \<Longrightarrow> set w \<inter> set m = {} \<Longrightarrow>
   sublist w a \<or> sublist w b"
proof (induction m arbitrary: a)
  case Nil
  then show ?case by simp
next
  case (Cons x m)
  have "sublist w (a @ x # (m @ b))" using Cons.prems(1) by simp
  moreover have "x \<notin> set w" using Cons.prems(3) by auto
  ultimately have "sublist w a \<or> sublist w (m @ b)" by (rule sublist_cut)
  then show ?case
  proof
    assume "sublist w (m @ b)"
    show ?thesis
    proof (cases "m = []")
      case True
      then show ?thesis using \<open>sublist w (m @ b)\<close> by simp
    next
      case False
      have "sublist w ([] @ m @ b)" using \<open>sublist w (m @ b)\<close> by simp
      then have "sublist w [] \<or> sublist w b"
        using False Cons.prems(3) by (intro Cons.IH) auto
      then show ?thesis by auto
    qed
  qed blast
qed

lemma sublist_dropWhile_avoid:
  "sublist w s \<Longrightarrow> \<forall>c \<in> set w. \<not> P c \<Longrightarrow> sublist w (dropWhile P s)"
proof (induction s)
  case Nil
  then show ?case by simp
next
  case (Cons c cs)
  show ?case
  proof (cases "P c")
    case False
    then show ?thesis using Cons.prems(1) by simp
  next
    case True
    then have "c \<notin> set w" using Cons.prems(2) by blast
    moreover have "sublist w ([] @ c # cs)" using Cons.prems(1) by simp
    ultimately have "sublist w [] \<or> sublist w cs" by (rule sublist_cut [rotated])
    then have "sublist w cs" by auto
    then show ?thesis using Cons.IH Cons.prems(2) True by simp
  qed
qed

lemma sublist_strip:
  assumes "sublist w s" and "\<forall>c \<in> set w. \<not> isspace c"
  shows "sublist w (strip s)"
proof -
  have "sublist w (dropWhile isspace s)"
    using assms by (rule sublist_dropWhile_avoid)
  then have "sublist (rev w) (rev (dropWhile isspace s))" by simp
  then have "sublist (rev w) (dropWhile isspace (rev (dropWhile isspace s)))"
    using assms(2) by (intro sublist_dropWhile_avoid) simp_all
  then show ?thesis unfolding strip_def by (simp add: sublist_rev_left)
qed

lemma replace_append: "replace old new (a @ b) = replace old new a @ replace old new b"
  by (simp add: replace_def)

lemma replace_avoid: "old \<notin> set w \<Longrightarrow> replace old new w = w"
  by (induction w) (auto simp: replace_def)

lemma sublist_replace:
  assumes "sublist w s" and "old \<notin> set w"
  shows "sublist w (replace old new s)"
proof -
  obtain p q where "s = p @ w @ q" using assms(1) by (auto simp: sublist_def)
  then have "replace old new s = replace old new p @ w @ replace old new q"
    using assms(2) by (simp add: replace_append replace_avoid)
  then show ?thesis by simp
qed

lemma sublist_escape_amp:
  assumes "sublist ''&amp;'' s"
  shows "sublist ''&amp;amp;'' (escape s)"
proof -
  obtain p q where "s = p @ ''&amp;'' @ q" using assms by (auto simp: sublist_def)
  then have "replace (CHR ''&'') ''&amp;'' s
             = replace (CHR ''&'') ''&amp;'' p @ replace (CHR ''&'') ''&amp;'' ''&amp;''
               @ replace (CHR ''&'') ''&amp;'' q"
    by (simp only: replace_append)
  moreover have "replace (CHR ''&'') ''&amp;'' ''&amp;'' = ''&amp;amp;''"
    by (simp add: replace_def)
  ultimately have "sublist ''&amp;amp;'' (replace (CHR ''&'') ''&amp;'' s)"
    by (metis sublist_appendI)
  then have "sublist ''&amp;amp;'' (replace (CHR ''<'') ''&lt;'' (replace (CHR ''&'') ''&amp;'' s))"
    by (rule sublist_replace) simp
  then have "sublist ''&amp;amp;'' (replace (CHR ''>'') ''&gt;''
      (replace (CHR ''<'') ''&lt;'' (replace (CHR ''&'') ''&amp;'' s)))"
    by (rule sublist_replace) simp
  then have "sublist ''&amp;amp;'' (replace (CHR 0x22) ''&quot;'' (replace (CHR ''>'') ''&gt;''
      (replace (CHR ''<'') ''&lt;'' (replace (CHR ''&'') ''&amp;'' s))))"
    by (rule sublist_replace) simp
  then have "sublist ''&amp;amp;'' (replace (CHR 0x27) ''&#x27;''
      (replace (CHR 0x22) ''&quot;'' (replace (CHR ''>'') ''&gt;''
      (replace (CHR ''<'') ''&lt;'' (replace (CHR ''&'') ''&amp;'' s)))))"
    by (rule sublist_replace) simp
  then show ?thesis by (simp only: escape_def Let_def)
qed


lemma sublist_re_sub_span:
  "sublist w s \<Longrightarrow> pre \<noteq> [] \<Longrightarrow> post \<noteq> [] \<Longrightarrow> set w \<inter> (set pre \<union> set post) = {} \<Longrightarrow>
   sublist w (re_sub_span pre d post ropen rclose s)"
proof (induction pre d post ropen rclose s rule: re_sub_span.induct)
  case (1 pre d post ropen rclose)
  then show ?case by simp
next
  case (2 pre d post ropen rclose c cs)
  let ?body = "takeWhile (\<lambda>y. y \<noteq> d) (drop (length pre) (c # cs))"
  let ?rest = "dropWhile (\<lambda>y. y \<noteq> d) (drop (length pre) (c # cs))"
  note av = "2.prems"(4)
  show ?case
  proof (cases "prefix pre (c # cs) \<and> ?body \<noteq> [] \<and> prefix post ?rest")
    case True
    let ?rest' = "drop (length post) ?rest"
    have "c # cs = pre @ drop (length pre) (c # cs)"
      using True by (metis append_eq_conv_conj prefix_def)
    moreover have "drop (length pre) (c # cs) = ?body @ ?rest" by simp
    moreover have "?rest = post @ ?rest'"
      using True by (metis append_eq_conv_conj prefix_def)
    ultimately have "c # cs = [] @ pre @ (?body @ post @ ?rest')" by simp
    then have "sublist w ([] @ pre @ (?body @ post @ ?rest'))" using "2.prems"(1) by simp
    then have "sublist w [] \<or> sublist w (?body @ post @ ?rest')"
      using "2.prems"(2) av by (intro sublist_cut_list) auto
    then have "sublist w (?body @ post @ ?rest')" by auto
    then have "sublist w ?body \<or> sublist w ?rest'"
      using "2.prems"(3) av by (intro sublist_cut_list) auto
    then show ?thesis
    proof
      assume "sublist w ?body"
      then have "sublist w (ropen @ ?body @ (rclose @ re_sub_span pre d post ropen rclose ?rest'))"
        by (meson sublist_appendI sublist_order.order_trans)
      then show ?thesis unfolding re_sub_span_match [OF True] by simp
    next
      assume "sublist w ?rest'"
      then have "sublist w (re_sub_span pre d post ropen rclose ?rest')"
        using "2.IH"(1) [OF refl refl True] "2.prems"(2-4) by simp
      then have "sublist w ((ropen @ ?body @ rclose) @ re_sub_span pre d post ropen rclose ?rest')"
        by (meson sublist_append_leftI sublist_order.order_trans)
      then show ?thesis unfolding re_sub_span_match [OF True] by simp
    qed
  next
    case False
    have "prefix w (c # cs) \<or> sublist w cs"
      using "2.prems"(1) by (simp add: sublist_Cons_right)
    then show ?thesis
    proof
      assume "prefix w (c # cs)"
      moreover have "hd pre \<notin> set w" using "2.prems"(2) av by (cases pre) auto
      ultimately have "prefix w (re_sub_span pre d post ropen rclose (c # cs))"
        using "2.prems"(2) by (intro prefix_re_sub_span)
      then show ?thesis by (rule prefix_imp_sublist)
    next
      assume "sublist w cs"
      then have "sublist w (re_sub_span pre d post ropen rclose cs)"
        using "2.IH"(2) [OF refl refl False] "2.prems"(2-4) by simp
      then show ?thesis
        unfolding re_sub_span_skip [OF False] by (simp add: sublist_Cons_right)
    qed
  qed
qed

lemma sublist_split_lines:
  "sublist w s \<Longrightarrow> CHR 0x0A \<notin> set w \<Longrightarrow> \<exists>line \<in> set (split_lines s). sublist w line"
proof (induction s)
  case Nil
  then show ?case by simp
next
  case (Cons c cs)
  let ?first = "takeWhile (\<lambda>c. c \<noteq> CHR 0x0A) cs"
  obtain ls where ls: "split_lines cs = ?first # ls"
    using split_lines_hd by blast
  show ?case
  proof (cases "c = CHR 0x0A")
    case True
    have "sublist w ([] @ c # cs)" using Cons.prems(1) by simp
    then have "sublist w [] \<or> sublist w cs"
      using Cons.prems(2) True by (intro sublist_cut) auto
    then show ?thesis
    proof
      assume "sublist w []"
      then have "[] \<in> set (split_lines (c # cs)) \<and> sublist w []" using True by simp
      then show ?thesis by blast
    next
      assume "sublist w cs"
      then show ?thesis using Cons.IH Cons.prems(2) True by auto
    qed
  next
    case False
    then have e: "split_lines (c # cs) = (c # ?first) # ls" by (simp add: ls)
    have "prefix w (c # cs) \<or> sublist w cs"
      using Cons.prems(1) by (simp add: sublist_Cons_right)
    then show ?thesis
    proof
      assume p: "prefix w (c # cs)"
      have "c # cs = (c # ?first) @ dropWhile (\<lambda>c. c \<noteq> CHR 0x0A) cs" by simp
      moreover have "dropWhile (\<lambda>c. c \<noteq> CHR 0x0A) cs = [] \<or>
                     (\<exists>r. dropWhile (\<lambda>c. c \<noteq> CHR 0x0A) cs = CHR 0x0A # r)"
        using dropWhile_cases [of "\<lambda>c. c \<noteq> CHR 0x0A" cs] by blast
      ultimately have "prefix w (c # ?first)"
        using p Cons.prems(2) prefix_cut [of w "c # ?first" "CHR 0x0A"]
        by (metis append_Nil2)
      then show ?thesis unfolding e by auto
    next
      assume "sublist w cs"
      then obtain line where "line \<in> set (?first # ls)" "sublist w line"
        using Cons.IH Cons.prems(2) ls by auto
      then have "sublist w (c # ?first) \<or> (line \<in> set ls \<and> sublist w line)"
        by (auto simp: sublist_Cons_right)
      then show ?thesis unfolding e by auto
    qed
  qed
qed

lemma strip_list_item: "is_list_item line \<Longrightarrow> \<exists>r. strip line = CHR ''-'' # r"
proof -
  assume "is_list_item line"
  then obtain r where r: "dropWhile isspace line = CHR ''-'' # r"
    by (auto simp: is_list_item_def split: list.splits)
  have "\<not> isspace (CHR ''-'')" by (simp add: isspace_def)
  then have "dropWhile isspace (rev r @ [CHR ''-'']) = dropWhile isspace (rev r) @ [CHR ''-'']"
    by (rule dropWhile_append3)
  then have "strip line = CHR ''-'' # rev (dropWhile isspace (rev r))"
    by (simp add: strip_def r)
  then show ?thesis by blast
qed

lemma line_step_emits:
  assumes "line_step (ls, out) line = Some (ls', out')"
  shows "\<exists>pre post. out' = out @ pre
           @ (if is_list_item line then drop 1 (strip line) else strip line) @ post
           \<and> tagged block_tags pre \<and> tagged block_tags post"
proof (cases "is_list_item line")
  case True
  let ?c = "drop 1 (strip line)"
  consider (push) "ls = [] \<or> last ls < length (leading_space line)"
    | (pop) "\<not> (ls = [] \<or> last ls < length (leading_space line))"
        "length (leading_space line) < last ls"
    | (same) "\<not> (ls = [] \<or> last ls < length (leading_space line))"
        "\<not> length (leading_space line) < last ls"
    by blast
  then show ?thesis
  proof cases
    case push
    then have "out' = out @ ''<ul><li>'' @ ?c @ ''</li>\<newline>''"
      using assms line_step_item [OF True, of ls out] by simp
    then show ?thesis
      using True
      by (intro exI [of _ "''<ul><li>''"] exI [of _ "''</li>\<newline>''"])
         (simp add: block_tags_def)
  next
    case pop
    then have "out' = out @ ''</ul><li>'' @ ?c @ ''</li>\<newline>''"
      using assms line_step_item [OF True, of ls out] by simp
    then show ?thesis
      using True
      by (intro exI [of _ "''</ul><li>''"] exI [of _ "''</li>\<newline>''"])
         (simp add: block_tags_def)
  next
    case same
    then have "out' = out @ ''<li>'' @ ?c @ ''</li>\<newline>''"
      using assms line_step_item [OF True, of ls out] by simp
    then show ?thesis
      using True
      by (intro exI [of _ "''<li>''"] exI [of _ "''</li>\<newline>''"])
         (simp add: block_tags_def)
  qed
next
  case False
  have "out' = out @ concat (replicate (length ls) ''</ul>'') @ strip line @ ''<br>\<newline>''"
    using assms line_step_text [OF False, of ls out] by simp
  moreover have "tagged block_tags (concat (replicate (length ls) ''</ul>''))"
    by (rule tagged_concat) (simp add: block_tags_def)
  ultimately show ?thesis
    using False
    by (intro exI [of _ "concat (replicate (length ls) ''</ul>'')"] exI [of _ "''<br>\<newline>''"])
       (simp add: block_tags_def)
qed

lemma line_step_prefix:
  "line_step (ls, out) line = Some (ls', out') \<Longrightarrow> prefix out out'"
  using line_step_emits by (metis prefixI)

lemma line_step_sublist:
  assumes "line_step (ls, out) line = Some (ls', out')"
    and "sublist w line" and "\<forall>c \<in> set w. \<not> isspace c \<and> c \<noteq> CHR ''-''"
  shows "sublist w out'"
proof -
  have s: "sublist w (strip line)" using assms(2,3) by (intro sublist_strip) auto
  have c: "sublist w (if is_list_item line then drop 1 (strip line) else strip line)"
  proof (cases "is_list_item line")
    case True
    then obtain r where r: "strip line = CHR ''-'' # r" using strip_list_item by blast
    then have "sublist w ([] @ CHR ''-'' # r)" using s by simp
    then have "sublist w [] \<or> sublist w r" using assms(3) by (intro sublist_cut) auto
    then show ?thesis using r True by auto
  next
    case False
    then show ?thesis using s by simp
  qed
  obtain pre post where
    "out' = (out @ pre) @ (if is_list_item line then drop 1 (strip line) else strip line) @ post"
    using line_step_emits [OF assms(1)] by auto
  then have "sublist (if is_list_item line then drop 1 (strip line) else strip line) out'"
    by (simp only: sublist_appendI)
  with c show ?thesis by (rule sublist_order.order_trans)
qed

lemma for_lines_prefix:
  "for_lines (ls, out) lines = Some (ls', out') \<Longrightarrow> prefix out out'"
proof (induction lines arbitrary: ls out)
  case Nil
  then show ?case by simp
next
  case (Cons line lines)
  obtain ls1 out1 where s1: "line_step (ls, out) line = Some (ls1, out1)"
    using line_step_total by (metis surj_pair)
  then have "for_lines (ls1, out1) lines = Some (ls', out')" using Cons.prems by simp
  then have "prefix out1 out'" by (rule Cons.IH)
  moreover have "prefix out out1" using s1 by (rule line_step_prefix)
  ultimately show ?case by (rule prefix_order.order_trans [rotated])
qed

lemma for_lines_sublist:
  assumes "for_lines (ls, out) lines = Some (ls', out')"
    and "line \<in> set lines" and "sublist w line"
    and "\<forall>c \<in> set w. \<not> isspace c \<and> c \<noteq> CHR ''-''"
  shows "sublist w out'"
  using assms(1,2)
proof (induction lines arbitrary: ls out)
  case Nil
  then show ?case by simp
next
  case (Cons l lines)
  obtain ls1 out1 where s1: "line_step (ls, out) l = Some (ls1, out1)"
    using line_step_total by (metis surj_pair)
  then have r: "for_lines (ls1, out1) lines = Some (ls', out')" using Cons.prems(1) by simp
  from Cons.prems(2) have "line = l \<or> line \<in> set lines" by auto
  then show ?case
  proof
    assume "line = l"
    then have "sublist w l" using assms(3) by simp
    with s1 have "sublist w out1" using assms(4) by (rule line_step_sublist)
    moreover have "prefix out1 out'" using r by (rule for_lines_prefix)
    then have "sublist out1 out'" by (rule prefix_imp_sublist)
    ultimately show ?thesis by (rule sublist_order.order_trans)
  next
    assume "line \<in> set lines"
    with r show ?thesis by (rule Cons.IH)
  qed
qed

lemma ampersand_kept:
  "sublist ''&amp;'' text \<Longrightarrow>
   \<exists>out_text. htmlify text = Some out_text \<and> sublist ''&amp;amp;'' out_text"
proof -
  assume a: "sublist ''&amp;'' text"
  let ?w = "''&amp;amp;''"
  let ?marked = "sub_code (sub_strong (sub_em (escape (lstrip ''*'' text))))"
  have "sublist ''&amp;'' (lstrip ''*'' text)"
    unfolding lstrip_def using a by (rule sublist_dropWhile_avoid) simp
  then have "sublist ?w (escape (lstrip ''*'' text))" by (rule sublist_escape_amp)
  then have "sublist ?w (sub_em (escape (lstrip ''*'' text)))"
    unfolding sub_em_def by (rule sublist_re_sub_span) simp_all
  then have "sublist ?w (sub_strong (sub_em (escape (lstrip ''*'' text))))"
    unfolding sub_strong_def by (rule sublist_re_sub_span) simp_all
  then have "sublist ?w ?marked"
    unfolding sub_code_def by (rule sublist_re_sub_span) simp_all
  then obtain line where l: "line \<in> set (split_lines ?marked)" "sublist ?w line"
    using sublist_split_lines [of ?w ?marked] by auto
  obtain ls out where f: "for_lines ([], []) (split_lines ?marked) = Some (ls, out)"
    using for_lines_total by (metis surj_pair)
  have "sublist ?w out"
    using f l by (rule for_lines_sublist) (simp add: isspace_def)
  then have "sublist ?w (out @ concat (replicate (length ls) ''</ul>''))"
    by (meson sublist_append_rightI sublist_order.order_trans)
  moreover have "htmlify text = Some (out @ concat (replicate (length ls) ''</ul>''))"
    using f by (simp add: htmlify_def close_lists_eq del: close_lists.simps)
  ultimately show ?thesis by simp
qed

subsection \<open>Leading stars\<close>

lemma lstrip_stars: "lstrip ''*'' (replicate n (CHR ''*'') @ s) = lstrip ''*'' s"
  by (induction n) (simp_all add: lstrip_def)

lemma count_list_dropWhile: "count_list (dropWhile P s) x \<le> count_list s x"
  by (induction s) simp_all

lemma replace_count:
  "x \<noteq> old \<Longrightarrow> x \<notin> set new \<Longrightarrow> count_list (replace old new s) x = count_list s x"
  by (induction s) (simp_all add: replace_def)

lemma escape_count_star: "count_list (escape s) (CHR ''*'') = count_list s (CHR ''*'')"
  by (simp add: escape_def Let_def replace_count)

lemma re_sub_span_count_le:
  "x \<notin> set ropen \<Longrightarrow> x \<notin> set rclose \<Longrightarrow>
   count_list (re_sub_span pre d post ropen rclose s) x \<le> count_list s x"
proof (induction pre d post ropen rclose s rule: re_sub_span.induct)
  case (1 pre d post ropen rclose)
  show ?case by simp
next
  case (2 pre d post ropen rclose c cs)
  let ?body = "takeWhile (\<lambda>y. y \<noteq> d) (drop (length pre) (c # cs))"
  let ?rest = "dropWhile (\<lambda>y. y \<noteq> d) (drop (length pre) (c # cs))"
  show ?case
  proof (cases "prefix pre (c # cs) \<and> ?body \<noteq> [] \<and> prefix post ?rest")
    case True
    let ?rest' = "drop (length post) ?rest"
    have "c # cs = take (length pre) (c # cs) @ drop (length pre) (c # cs)" by simp
    moreover have "drop (length pre) (c # cs) = ?body @ ?rest" by simp
    moreover have "?rest = take (length post) ?rest @ ?rest'" by simp
    ultimately have "c # cs = take (length pre) (c # cs) @ ?body
                       @ take (length post) ?rest @ ?rest'"
      by metis
    then have "count_list (c # cs) x = count_list (take (length pre) (c # cs)) x
                 + count_list ?body x + count_list (take (length post) ?rest) x
                 + count_list ?rest' x"
      by (metis (no_types, lifting) count_list_append add.assoc)
    moreover have "count_list (re_sub_span pre d post ropen rclose ?rest') x
                   \<le> count_list ?rest' x"
      using "2.IH"(1) [OF refl refl True] "2.prems" by simp
    ultimately show ?thesis
      unfolding re_sub_span_match [OF True] using "2.prems" by simp
  next
    case False
    have "count_list (re_sub_span pre d post ropen rclose cs) x \<le> count_list cs x"
      using "2.IH"(2) [OF refl refl False] "2.prems" by simp
    then show ?thesis unfolding re_sub_span_skip [OF False] by simp
  qed
qed

lemma sub_strong_single_star:
  assumes "count_list s (CHR ''*'') \<le> 1"
  shows "sub_strong s = s"
proof (rule ccontr)
  assume "sub_strong s \<noteq> s"
  then obtain p b q where "s = p @ ''*'' @ b @ ''*'' @ q"
    unfolding sub_strong_def using re_sub_span_changes by blast
  then have "2 \<le> count_list s (CHR ''*'')" by simp
  then show False using assms by simp
qed

lemma sublist_count_sub: "sublist pat s \<Longrightarrow> pat \<noteq> [] \<Longrightarrow> 0 < count_sub pat s"
  by (induction s) (auto simp: sublist_Cons_right)

lemma for_lines_tagged:
  assumes "\<forall>line \<in> set lines. tagged K line"
    and "\<forall>t \<in> set K. \<forall>c \<in> set t. \<not> isspace c"
    and "tagged (K @ block_tags) out"
    and "for_lines (ls, out) lines = Some (ls', out')"
  shows "tagged (K @ block_tags) out'"
  using assms(1,3,4)
proof (induction lines arbitrary: ls out)
  case Nil
  then show ?case by simp
next
  case (Cons line lines)
  obtain ls1 out1 where s1: "line_step (ls, out) line = Some (ls1, out1)"
    using line_step_total by (metis surj_pair)
  let ?c = "if is_list_item line then drop 1 (strip line) else strip line"
  obtain pre post where e: "out1 = out @ pre @ ?c @ post"
    and pp: "tagged block_tags pre" "tagged block_tags post"
    using line_step_emits [OF s1] by blast
  have "tagged K (strip line)" using Cons.prems(1) assms(2) by (intro tagged_strip) simp_all
  then have "tagged K ?c" by (simp add: tagged_drop)
  then have c: "tagged (K @ block_tags) ?c" by (rule tagged_mono) simp
  have p: "tagged (K @ block_tags) pre" "tagged (K @ block_tags) post"
    using pp by (auto intro: tagged_mono)
  have "tagged (K @ block_tags) out1"
    unfolding e using Cons.prems(2) c p by (intro tagged_append)
  moreover have "for_lines (ls1, out1) lines = Some (ls', out')"
    using Cons.prems(3) s1 by simp
  ultimately show ?case using Cons.IH Cons.prems(1) by simp
qed


lemma no_strong_tag:
  assumes "count_list (lstrip ''*'' text) (CHR ''*'') \<le> 1"
  shows "\<exists>out_text. htmlify text = Some out_text \<and> \<not> sublist ''<strong>'' out_text"
proof -
  let ?e = "escape (lstrip ''*'' text)"
  have "count_list (sub_em ?e) (CHR ''*'') \<le> count_list ?e (CHR ''*'')"
    unfolding sub_em_def by (rule re_sub_span_count_le) simp_all
  then have "count_list (sub_em ?e) (CHR ''*'') \<le> 1"
    using assms by (simp add: escape_count_star)
  then have st: "sub_strong (sub_em ?e) = sub_em ?e" by (rule sub_strong_single_star)
  let ?marked = "sub_code (sub_em ?e)"
  have "tagged em_code_tags (sub_em ?e)"
    using escape_no_lt by (rule tagged_sub_em) (simp add: em_code_tags_def)
  then have m: "tagged em_code_tags ?marked"
    by (rule tagged_sub_code) (simp_all add: em_code_tags_def)
  have plain: "\<forall>t \<in> set em_code_tags. \<forall>c \<in> set t. \<not> isspace c"
    "\<forall>t \<in> set em_code_tags. CHR 0x0A \<notin> set t"
    by (simp_all add: em_code_tags_def isspace_def)
  obtain ls out where f: "for_lines ([], []) (split_lines ?marked) = Some (ls, out)"
    using for_lines_total by (metis surj_pair)
  have "\<forall>line \<in> set (split_lines ?marked). tagged em_code_tags line"
    using tagged_line [OF m plain(2)] by blast
  then have "tagged (em_code_tags @ block_tags) out"
    using plain(1) _ f by (rule for_lines_tagged) simp
  moreover have "tagged (em_code_tags @ block_tags) (concat (replicate (length ls) ''</ul>''))"
    by (rule tagged_concat) (simp add: block_tags_def)
  ultimately have t: "tagged (em_code_tags @ block_tags)
                        (out @ concat (replicate (length ls) ''</ul>''))"
    by (rule tagged_append)
  have "\<forall>t \<in> set (em_code_tags @ block_tags).
          \<not> prefix t ''<strong>'' \<and> \<not> prefix ''<strong>'' t"
    by (simp add: em_code_tags_def block_tags_def)
  with t have "count_sub ''<strong>'' (out @ concat (replicate (length ls) ''</ul>'')) = 0"
    by (rule count_sub_zero) simp
  then have "\<not> sublist ''<strong>'' (out @ concat (replicate (length ls) ''</ul>''))"
    using sublist_count_sub [of "''<strong>''"] by fastforce
  moreover have "htmlify text = Some (out @ concat (replicate (length ls) ''</ul>''))"
    using f st by (simp add: htmlify_def close_lists_eq del: close_lists.simps)
  ultimately show ?thesis by simp
qed

lemma lstrip_no_star: "\<not> prefix ''*'' (lstrip ''*'' s)"
  by (induction s) (simp_all add: lstrip_def)

lemma single_span_count:
  assumes a: "CHR ''*'' \<notin> set b \<and> CHR ''*'' \<notin> set r"
  shows "count_list (lstrip ''*'' (CHR ''*'' # b @ CHR ''*'' # r)) (CHR ''*'') \<le> 1"
proof -
  have e: "lstrip ''*'' (CHR ''*'' # b @ CHR ''*'' # r)
        = dropWhile (\<lambda>c. c \<in> set ''*'') (b @ CHR ''*'' # r)"
    by (simp add: lstrip_def)
  have "count_list (dropWhile (\<lambda>c. c \<in> set ''*'') (b @ CHR ''*'' # r)) (CHR ''*'')
                 \<le> count_list (b @ CHR ''*'' # r) (CHR ''*'')"
    by (rule count_list_dropWhile)
  moreover have "count_list (b @ CHR ''*'' # r) (CHR ''*'') = 1" using a by simp
  ultimately show ?thesis unfolding e by (rule ord_le_eq_trans)
qed

text \<open>
  C10. \<^verbatim>\<open>htmlify\<close> drops every leading \<^verbatim>\<open>*\<close> before it escapes and substitutes:
  any number of stars put before a block leaves the result unchanged, and the text that
  goes on does not start with a star. So a strong span whose opening star is the first
  character of the block is not rendered as a strong span: when its two stars are the
  only ones of the block (\<open>b\<close> and \<open>r\<close> hold none), the strong pass finds a single
  star and the output holds no \<^verbatim>\<open><strong>\<close> tag, as for \<^verbatim>\<open>*bold* rest\<close>.
\<close>

theorem leading_stars_consumed:
  "htmlify (replicate n (CHR ''*'') @ text) = htmlify text \<and>
   \<not> prefix ''*'' (lstrip ''*'' text) \<and>
   (CHR ''*'' \<notin> set b \<and> CHR ''*'' \<notin> set r \<longrightarrow>
      (\<exists>out_text. htmlify (CHR ''*'' # b @ CHR ''*'' # r) = Some out_text \<and>
         \<not> sublist ''<strong>'' out_text)) \<and>
   htmlify ''*bold* rest'' = Some ''bold* rest<br>\<newline>''"
proof -
  have 1: "htmlify (replicate n (CHR ''*'') @ text) = htmlify text"
    by (simp only: htmlify_def lstrip_stars)
  have 2: "\<not> prefix ''*'' (lstrip ''*'' text)" by (rule lstrip_no_star)
  have 3: "CHR ''*'' \<notin> set b \<and> CHR ''*'' \<notin> set r \<longrightarrow>
      (\<exists>out_text. htmlify (CHR ''*'' # b @ CHR ''*'' # r) = Some out_text \<and>
         \<not> sublist ''<strong>'' out_text)"
  proof
    assume "CHR ''*'' \<notin> set b \<and> CHR ''*'' \<notin> set r"
    then have "count_list (lstrip ''*'' (CHR ''*'' # b @ CHR ''*'' # r)) (CHR ''*'') \<le> 1"
      by (rule single_span_count)
    then show "\<exists>out_text. htmlify (CHR ''*'' # b @ CHR ''*'' # r) = Some out_text \<and>
                 \<not> sublist ''<strong>'' out_text"
      by (rule no_strong_tag)
  qed
  have 4: "htmlify ''*bold* rest'' = Some ''bold* rest<br>\<newline>''" by code_simp
  from 1 2 3 4 show ?thesis by (intro conjI)
qed

theorem leading_stars_consumed_witness:
  "CHR ''*'' \<notin> set ''bold'' \<and> CHR ''*'' \<notin> set '' and /more/'' \<and>
   htmlify ''***bold* and /more/'' = htmlify ''bold* and /more/'' \<and>
   (\<exists>out_text. htmlify ''*bold* and /more/'' = Some out_text \<and>
      \<not> sublist ''<strong>'' out_text)"
proof -
  have a: "CHR ''*'' \<notin> set ''bold'' \<and> CHR ''*'' \<notin> set '' and /more/''" by simp
  have r: "replicate 3 (CHR ''*'') @ ''bold* and /more/'' = ''***bold* and /more/''"
    by (simp add: numeral_3_eq_3)
  have t: "CHR ''*'' # ''bold'' @ CHR ''*'' # '' and /more/'' = ''*bold* and /more/''"
    by simp
  note l = leading_stars_consumed [of 3 "''bold* and /more/''" "''bold''" "'' and /more/''"]
  have "htmlify ''***bold* and /more/'' = htmlify ''bold* and /more/''"
    using l [THEN conjunct1] unfolding r .
  moreover have "\<exists>out_text. htmlify ''*bold* and /more/'' = Some out_text \<and>
      \<not> sublist ''<strong>'' out_text"
    using l [THEN conjunct2, THEN conjunct2, THEN conjunct1, rule_format, OF a]
    unfolding t .
  ultimately show ?thesis using a by (intro conjI) simp_all
qed

subsection \<open>Where the code pass applies\<close>

text \<open>
  Escaping works character by character and leaves the space and \<^verbatim>\<open>=\<close> as they are,
  so a pattern of the code pass in the escaped text comes from one in the block.
\<close>

lemma escape_append: "escape (a @ b) = escape a @ escape b"
  by (simp only: escape_def Let_def replace_append)

lemma escape_concat_map: "escape s = concat (map (\<lambda>c. escape [c]) s)"
proof (induction s)
  case Nil
  show ?case by (simp add: escape_def replace_def)
next
  case (Cons c s)
  have "escape (c # s) = escape ([c] @ s)" by simp
  also have "\<dots> = escape [c] @ escape s" by (rule escape_append)
  finally show ?case using Cons by simp
qed

lemma escape_char_keeps:
  "x \<notin> set ''&<>'' \<Longrightarrow> x \<noteq> CHR 0x22 \<Longrightarrow> x \<noteq> CHR 0x27 \<Longrightarrow> escape [x] = [x]"
  by (simp add: escape_def replace_def)

lemma escape_char_set: "set (escape [y]) \<subseteq> insert y (set ''&amp;lt;gt;quot;#x27;'')"
proof -
  consider "y = CHR ''&''" | "y = CHR ''<''" | "y = CHR ''>''" | "y = CHR 0x22" | "y = CHR 0x27"
    | "y \<notin> set ''&<>''" "y \<noteq> CHR 0x22" "y \<noteq> CHR 0x27"
    by auto
  then show ?thesis
  proof cases
    case 6
    then show ?thesis using escape_char_keeps [of y] by simp
  qed (simp_all add: escape_def replace_def)
qed

lemma escape_char_nonempty: "escape [y] \<noteq> []"
proof -
  consider "y = CHR ''&''" | "y = CHR ''<''" | "y = CHR ''>''" | "y = CHR 0x22" | "y = CHR 0x27"
    | "y \<notin> set ''&<>''" "y \<noteq> CHR 0x22" "y \<noteq> CHR 0x27"
    by auto
  then show ?thesis
  proof cases
    case 6
    then show ?thesis using escape_char_keeps [of y] by simp
  qed (simp_all add: escape_def replace_def)
qed





lemma re_sub_span_absent:
  "hd pre \<notin> set s \<Longrightarrow> pre \<noteq> [] \<Longrightarrow> re_sub_span pre d post ropen rclose s = s"
proof (rule ccontr)
  assume a: "hd pre \<notin> set s" "pre \<noteq> []" and "re_sub_span pre d post ropen rclose s \<noteq> s"
  then obtain p b q where "s = p @ pre @ b @ post @ q"
    using re_sub_span_changes by blast
  then have "hd pre \<in> set s" using a(2) by (cases pre) auto
  then show False using a(1) by simp
qed

lemma escape_set: "x \<in> set (escape s) \<Longrightarrow> x \<in> set s \<or> x \<in> set ''&amp;lt;gt;quot;#x27;''"
  using escape_char_set by (subst (asm) escape_concat_map) fastforce


subsection \<open>Spans and patterns in place\<close>

text \<open>
  Where a pass finds its first pattern it replaces just that pattern; a piece of text
  that starts and ends with a character other than white space survives the line loop.
\<close>

lemma prefix_within: "prefix a (u @ v) \<Longrightarrow> length a \<le> length u \<Longrightarrow> prefix a u"
  by (auto simp: prefix_append)

lemma no_match_before:
  assumes "pre \<noteq> []" and "last pre \<notin> set x" and "last pre \<notin> set (butlast pre)"
    and "x \<noteq> []"
  shows "\<not> prefix pre (x @ pre @ r)"
proof
  assume p: "prefix pre (x @ pre @ r)"
  have "pre @ r = butlast pre @ (last pre # r)"
    using assms(1) by (metis append.assoc append_Cons append_Nil append_butlast_last_id)
  then have "x @ pre @ r = (x @ butlast pre) @ (last pre # r)" by simp
  with p have "prefix pre ((x @ butlast pre) @ (last pre # r))" by (simp only:)
  moreover have "length pre \<le> length (x @ butlast pre)"
    using assms(1,4) by (cases x) simp_all
  ultimately have "prefix pre (x @ butlast pre)" by (rule prefix_within)
  then have "set pre \<subseteq> set (x @ butlast pre)" by (rule set_mono_prefix)
  moreover have "last pre \<in> set pre" using assms(1) by simp
  ultimately show False using assms(2,3) by auto
qed

lemma re_sub_span_site:
  assumes "pre \<noteq> []" and "last pre \<notin> set x" and "last pre \<notin> set (butlast pre)"
    and "b \<noteq> []" and "d \<notin> set b" and "post = d # post'"
  shows "re_sub_span pre d post ropen rclose (x @ pre @ b @ post @ y)
         = x @ ropen @ b @ rclose @ re_sub_span pre d post ropen rclose y"
  using assms(2)
proof (induction x)
  case Nil
  obtain c pre' where pre: "pre = c # pre'" using assms(1) by (cases pre) auto
  let ?cs = "pre' @ b @ post @ y"
  have d: "drop (length pre) (c # ?cs) = b @ d # post' @ y"
    using pre assms(6) by simp
  have nd: "z \<in> set b \<Longrightarrow> z \<noteq> d" for z using assms(5) by auto
  have tw: "takeWhile (\<lambda>z. z \<noteq> d) (b @ d # post' @ y) = b"
    using takeWhile_append2 [of b "\<lambda>z. z \<noteq> d" "d # post' @ y"] nd by simp
  have dw: "dropWhile (\<lambda>z. z \<noteq> d) (b @ d # post' @ y) = post @ y"
    using dropWhile_append2 [of b "\<lambda>z. z \<noteq> d" "d # post' @ y"] nd assms(6) by simp
  have m: "prefix pre (c # ?cs) \<and> takeWhile (\<lambda>z. z \<noteq> d) (drop (length pre) (c # ?cs)) \<noteq> []
     \<and> prefix post (dropWhile (\<lambda>z. z \<noteq> d) (drop (length pre) (c # ?cs)))"
    unfolding d tw dw using pre assms(4) by simp
  have "re_sub_span pre d post ropen rclose (c # ?cs)
        = ropen @ b @ rclose @ re_sub_span pre d post ropen rclose y"
    unfolding re_sub_span_match [OF m] unfolding d tw dw by simp
  then show ?case using pre by simp
next
  case (Cons c x)
  have n: "\<not> prefix pre ((c # x) @ pre @ b @ post @ y)"
    using assms(1) Cons.prems assms(3) by (rule no_match_before) simp
  have "re_sub_span pre d post ropen rclose (c # (x @ pre @ b @ post @ y))
        = c # re_sub_span pre d post ropen rclose (x @ pre @ b @ post @ y)"
    by (rule re_sub_span_skip) (use n in simp)
  then show ?case using Cons by simp
qed

lemma sublist_dropWhile_hd:
  "sublist w s \<Longrightarrow> w \<noteq> [] \<Longrightarrow> \<not> P (hd w) \<Longrightarrow> sublist w (dropWhile P s)"
proof (induction s)
  case Nil
  then show ?case by simp
next
  case (Cons c cs)
  show ?case
  proof (cases "P c")
    case False
    then show ?thesis using Cons.prems(1) by simp
  next
    case True
    have "prefix w (c # cs) \<or> sublist w cs"
      using Cons.prems(1) by (simp add: sublist_Cons_right)
    moreover have "\<not> prefix w (c # cs)"
      using Cons.prems(2,3) True by (cases w) auto
    ultimately have "sublist w cs" by blast
    then show ?thesis using Cons.IH Cons.prems(2,3) True by simp
  qed
qed

lemma sublist_strip_ends:
  assumes "sublist w s" and "w \<noteq> []" and "\<not> isspace (hd w)" and "\<not> isspace (last w)"
  shows "sublist w (strip s)"
proof -
  have "sublist w (dropWhile isspace s)"
    using assms(1-3) by (rule sublist_dropWhile_hd)
  then have "sublist (rev w) (rev (dropWhile isspace s))" by simp
  moreover have "rev w \<noteq> []" using assms(2) by simp
  moreover have "\<not> isspace (hd (rev w))" using assms(2,4) by (simp add: hd_rev)
  ultimately have "sublist (rev w) (dropWhile isspace (rev (dropWhile isspace s)))"
    by (rule sublist_dropWhile_hd)
  then show ?thesis unfolding strip_def by (simp add: sublist_rev_left)
qed

lemma line_step_sublist_ends:
  assumes "line_step (ls, out) line = Some (ls', out')"
    and "sublist w line" and "w \<noteq> []" and "\<not> isspace (hd w)" and "hd w \<noteq> CHR ''-''"
    and "\<not> isspace (last w)"
  shows "sublist w out'"
proof -
  have s: "sublist w (strip line)" using assms(2,3,4,6) by (rule sublist_strip_ends)
  have c: "sublist w (if is_list_item line then drop 1 (strip line) else strip line)"
  proof (cases "is_list_item line")
    case True
    then obtain r where r: "strip line = CHR ''-'' # r" using strip_list_item by blast
    then have "prefix w (CHR ''-'' # r) \<or> sublist w r"
      using s by (simp add: sublist_Cons_right)
    moreover have "\<not> prefix w (CHR ''-'' # r)" using assms(3,5) by (cases w) auto
    ultimately show ?thesis using r True by simp
  next
    case False
    then show ?thesis using s by simp
  qed
  obtain pre post where
    "out' = (out @ pre) @ (if is_list_item line then drop 1 (strip line) else strip line) @ post"
    using line_step_emits [OF assms(1)] by auto
  then have "sublist (if is_list_item line then drop 1 (strip line) else strip line) out'"
    by (simp only: sublist_appendI)
  with c show ?thesis by (rule sublist_order.order_trans)
qed

lemma for_lines_sublist_ends:
  assumes "for_lines (ls, out) lines = Some (ls', out')"
    and "line \<in> set lines" and "sublist w line"
    and "w \<noteq> []" and "\<not> isspace (hd w)" and "hd w \<noteq> CHR ''-''" and "\<not> isspace (last w)"
  shows "sublist w out'"
  using assms(1,2)
proof (induction lines arbitrary: ls out)
  case Nil
  then show ?case by simp
next
  case (Cons l lines)
  obtain ls1 out1 where s1: "line_step (ls, out) l = Some (ls1, out1)"
    using line_step_total by (metis surj_pair)
  then have r: "for_lines (ls1, out1) lines = Some (ls', out')" using Cons.prems(1) by simp
  from Cons.prems(2) have "line = l \<or> line \<in> set lines" by auto
  then show ?case
  proof
    assume "line = l"
    then have "sublist w l" using assms(3) by simp
    with s1 have "sublist w out1" using assms(4-7) by (rule line_step_sublist_ends)
    moreover have "prefix out1 out'" using r by (rule for_lines_prefix)
    then have "sublist out1 out'" by (rule prefix_imp_sublist)
    ultimately show ?thesis by (rule sublist_order.order_trans)
  next
    assume "line \<in> set lines"
    with r show ?thesis by (rule Cons.IH)
  qed
qed

lemma htmlify_keeps:
  assumes "sublist w (sub_code (sub_strong (sub_em (escape (lstrip ''*'' text)))))"
    and "w \<noteq> []" and "\<not> isspace (hd w)" and "hd w \<noteq> CHR ''-''" and "\<not> isspace (last w)"
    and "CHR 0x0A \<notin> set w"
  shows "\<exists>out_text. htmlify text = Some out_text \<and> sublist w out_text"
proof -
  let ?marked = "sub_code (sub_strong (sub_em (escape (lstrip ''*'' text))))"
  obtain line where l: "line \<in> set (split_lines ?marked)" "sublist w line"
    using sublist_split_lines [OF assms(1,6)] by auto
  obtain ls out where f: "for_lines ([], []) (split_lines ?marked) = Some (ls, out)"
    using for_lines_total by (metis surj_pair)
  have "sublist w out"
    using f l assms(2-5) by (rule for_lines_sublist_ends)
  then have "sublist w (out @ concat (replicate (length ls) ''</ul>''))"
    by (meson sublist_append_rightI sublist_order.order_trans)
  moreover have "htmlify text = Some (out @ concat (replicate (length ls) ''</ul>''))"
    using f by (simp add: htmlify_def close_lists_eq del: close_lists.simps)
  ultimately show ?thesis by simp
qed

lemma lstrip_keep: "CHR ''*'' \<notin> set s \<Longrightarrow> lstrip ''*'' s = s"
  by (cases s) (auto simp: lstrip_def)

lemma lstrip_append_other:
  "c \<noteq> CHR ''*'' \<Longrightarrow> lstrip ''*'' (p @ c # r) = lstrip ''*'' p @ c # r"
  by (simp add: lstrip_def dropWhile_append3)

lemma lstrip_subset: "set (lstrip ''*'' s) \<subseteq> set s"
  unfolding lstrip_def by (auto dest: set_dropWhileD)

lemma escape_nonempty: "s \<noteq> [] \<Longrightarrow> escape s \<noteq> []"
  using escape_append [of "[hd s]" "tl s"] escape_char_nonempty [of "hd s"]
  by (cases s) auto

lemma escape_plain:
  assumes "set b \<inter> set ''/*=-'' = {}" and "\<forall>c \<in> set b. \<not> isspace c"
  shows "\<forall>c \<in> set (escape b). \<not> isspace c \<and> c \<notin> set ''/*=- ''"
proof
  fix c assume "c \<in> set (escape b)"
  then have "c \<in> set b \<or> c \<in> set ''&amp;lt;gt;quot;#x27;''" by (rule escape_set)
  then show "\<not> isspace c \<and> c \<notin> set ''/*=- ''"
  proof
    assume c: "c \<in> set b"
    then have "\<not> isspace c" using assms(2) by blast
    moreover have "c \<noteq> CHR '' ''" using calculation by (auto simp: isspace_def)
    ultimately show ?thesis using assms(1) c by auto
  next
    assume "c \<in> set ''&amp;lt;gt;quot;#x27;''"
    then show ?thesis by (auto simp: isspace_def)
  qed
qed

lemma tagged_span_reaches_output:
  assumes "sublist (topen @ eb @ tclose) (sub_code (sub_strong (sub_em (escape (lstrip ''*'' text)))))"
    and "\<forall>c \<in> set eb. \<not> isspace c"
    and "topen \<noteq> []" and "\<not> isspace (hd topen)" and "hd topen \<noteq> CHR ''-''"
    and "tclose \<noteq> []" and "\<not> isspace (last tclose)"
    and "CHR 0x0A \<notin> set topen" and "CHR 0x0A \<notin> set tclose"
  shows "\<exists>out_text. htmlify text = Some out_text \<and> sublist (topen @ eb @ tclose) out_text"
proof -
  have "CHR 0x0A \<notin> set eb" using assms(2) by (auto simp: isspace_def)
  then have "CHR 0x0A \<notin> set (topen @ eb @ tclose)" using assms(8,9) by simp
  moreover have "hd (topen @ eb @ tclose) = hd topen" using assms(3) by simp
  moreover have "last (topen @ eb @ tclose) = last tclose" using assms(6) by simp
  moreover have "topen @ eb @ tclose \<noteq> []" using assms(3) by simp
  ultimately show ?thesis
    using assms(1,4,5,7) by (intro htmlify_keeps) simp_all
qed

lemma emphasis_span_escaped:
  assumes "CHR ''/'' \<notin> set p" and "b \<noteq> []" and "set b \<inter> set ''/*=-'' = {}"
    and "\<forall>c \<in> set b. \<not> isspace c"
  shows "\<exists>out_text. htmlify (p @ ''/'' @ b @ ''/'' @ q) = Some out_text \<and>
           sublist (''<em>'' @ escape b @ ''</em>'') out_text"
proof -
  let ?p = "lstrip ''*'' p"
  let ?w = "''<em>'' @ escape b @ ''</em>''"
  note eb = escape_plain [OF assms(3,4)]
  have l: "lstrip ''*'' (p @ ''/'' @ b @ ''/'' @ q) = ?p @ ''/'' @ b @ ''/'' @ q"
    using lstrip_append_other [of "CHR ''/''" p "b @ ''/'' @ q"] by simp
  have sl: "escape ''/'' = ''/''" by (simp add: escape_char_keeps)
  have e: "escape (?p @ ''/'' @ b @ ''/'' @ q)
           = escape ?p @ ''/'' @ escape b @ ''/'' @ escape q"
    by (simp only: escape_append sl)
  have "CHR ''/'' \<notin> set ?p" using assms(1) lstrip_subset by blast
  then have 1: "last ''/'' \<notin> set (escape ?p)" using escape_set [of "CHR ''/''" ?p] by auto
  have 2: "CHR ''/'' \<notin> set (escape b)" using eb by auto
  have "sub_em (escape ?p @ ''/'' @ escape b @ ''/'' @ escape q)
        = escape ?p @ '' <em>'' @ escape b @ ''</em> '' @ sub_em (escape q)"
    unfolding sub_em_def
    by (rule re_sub_span_site [OF _ 1 _ escape_nonempty [OF assms(2)] 2]) simp_all
  also have "\<dots> = (escape ?p @ '' '') @ ?w @ ('' '' @ sub_em (escape q))" by simp
  finally have "sublist ?w (sub_em (escape (lstrip ''*'' (p @ ''/'' @ b @ ''/'' @ q))))"
    unfolding l e by (simp only: sublist_appendI)
  then have "sublist ?w (sub_strong (sub_em (escape (lstrip ''*'' (p @ ''/'' @ b @ ''/'' @ q)))))"
    unfolding sub_strong_def using eb by (intro sublist_re_sub_span) auto
  then have "sublist ?w (sub_code (sub_strong (sub_em
               (escape (lstrip ''*'' (p @ ''/'' @ b @ ''/'' @ q))))))"
    unfolding sub_code_def using eb by (intro sublist_re_sub_span) auto
  then show ?thesis
    using eb by (intro tagged_span_reaches_output) (auto simp: isspace_def)
qed

lemma sub_em_absent: "CHR ''/'' \<notin> set s \<Longrightarrow> sub_em (escape s) = escape s"
  unfolding sub_em_def using escape_set [of "CHR ''/''" s]
  by (intro re_sub_span_absent) auto

lemma sub_strong_absent: "CHR ''*'' \<notin> set s \<Longrightarrow> sub_strong (escape s) = escape s"
  unfolding sub_strong_def using escape_set [of "CHR ''*''" s]
  by (intro re_sub_span_absent) auto

lemma strong_span_escaped:
  assumes "p \<noteq> []" and "CHR ''*'' \<notin> set p" and "CHR ''/'' \<notin> set (p @ b @ q)"
    and "b \<noteq> []" and "set b \<inter> set ''/*=-'' = {}" and "\<forall>c \<in> set b. \<not> isspace c"
  shows "\<exists>out_text. htmlify (p @ ''*'' @ b @ ''*'' @ q) = Some out_text \<and>
           sublist (''<strong>'' @ escape b @ ''</strong>'') out_text"
proof -
  let ?t = "p @ ''*'' @ b @ ''*'' @ q"
  let ?w = "''<strong>'' @ escape b @ ''</strong>''"
  note eb = escape_plain [OF assms(5,6)]
  have l: "lstrip ''*'' ?t = ?t" using assms(1,2) by (cases p) (auto simp: lstrip_def)
  have st: "escape ''*'' = ''*''" by (simp add: escape_char_keeps)
  have e: "escape ?t = escape p @ ''*'' @ escape b @ ''*'' @ escape q"
    by (simp only: escape_append st)
  have "CHR ''/'' \<notin> set ?t" using assms(3) by simp
  then have em: "sub_em (escape ?t) = escape ?t" by (rule sub_em_absent)
  have 1: "last ''*'' \<notin> set (escape p)" using assms(2) escape_set [of "CHR ''*''" p] by auto
  have 2: "CHR ''*'' \<notin> set (escape b)" using eb by auto
  have "sub_strong (escape p @ ''*'' @ escape b @ ''*'' @ escape q)
        = escape p @ '' <strong>'' @ escape b @ ''</strong> '' @ sub_strong (escape q)"
    unfolding sub_strong_def
    by (rule re_sub_span_site [OF _ 1 _ escape_nonempty [OF assms(4)] 2]) simp_all
  also have "\<dots> = (escape p @ '' '') @ ?w @ ('' '' @ sub_strong (escape q))" by simp
  finally have "sublist ?w (sub_strong (escape p @ ''*'' @ escape b @ ''*'' @ escape q))"
    by (simp only: sublist_appendI)
  then have "sublist ?w (sub_strong (sub_em (escape (lstrip ''*'' ?t))))"
    by (simp only: l e em [unfolded e])
  then have "sublist ?w (sub_code (sub_strong (sub_em (escape (lstrip ''*'' ?t)))))"
    unfolding sub_code_def using eb by (intro sublist_re_sub_span) auto
  then show ?thesis
    using eb by (intro tagged_span_reaches_output) (auto simp: isspace_def)
qed

lemma code_span_escaped:
  assumes "CHR ''/'' \<notin> set (p @ b @ q)" and "CHR ''*'' \<notin> set (p @ b @ q)"
    and "CHR ''='' \<notin> set p"
    and "b \<noteq> []" and "set b \<inter> set ''/*=-'' = {}" and "\<forall>c \<in> set b. \<not> isspace c"
  shows "\<exists>out_text. htmlify (p @ '' ='' @ b @ ''= '' @ q) = Some out_text \<and>
           sublist (''<code>'' @ escape b @ ''</code>'') out_text"
proof -
  let ?t = "p @ '' ='' @ b @ ''= '' @ q"
  let ?w = "''<code>'' @ escape b @ ''</code>''"
  note eb = escape_plain [OF assms(5,6)]
  have ns: "CHR ''*'' \<notin> set ?t" and nl: "CHR ''/'' \<notin> set ?t" using assms(1,2) by simp_all
  have l: "lstrip ''*'' ?t = ?t" using ns by (rule lstrip_keep)
  have a: "escape '' ='' = '' =''" "escape ''= '' = ''= ''"
    by (simp_all add: escape_def replace_def)
  have e: "escape ?t = escape p @ '' ='' @ escape b @ ''= '' @ escape q"
    by (simp only: escape_append a)
  have em: "sub_em (escape ?t) = escape ?t" using nl by (rule sub_em_absent)
  have st: "sub_strong (escape ?t) = escape ?t" using ns by (rule sub_strong_absent)
  have 1: "last '' ='' \<notin> set (escape p)" using assms(3) escape_set [of "CHR ''=''" p] by auto
  have 2: "CHR ''='' \<notin> set (escape b)" using eb by auto
  have "sub_code (escape p @ '' ='' @ escape b @ ''= '' @ escape q)
        = escape p @ '' <code>'' @ escape b @ ''</code> '' @ sub_code (escape q)"
    unfolding sub_code_def
    by (rule re_sub_span_site [OF _ 1 _ escape_nonempty [OF assms(4)] 2]) simp_all
  also have "\<dots> = (escape p @ '' '') @ ?w @ ('' '' @ sub_code (escape q))" by simp
  finally have "sublist ?w (sub_code (escape p @ '' ='' @ escape b @ ''= '' @ escape q))"
    by (simp only: sublist_appendI)
  then have "sublist ?w (sub_code (sub_strong (sub_em (escape (lstrip ''*'' ?t)))))"
    by (simp only: l e em [unfolded e] st [unfolded e])
  then show ?thesis
    using eb by (intro tagged_span_reaches_output) (auto simp: isspace_def)
qed

lemma split_lines_single: "CHR 0x0A \<notin> set s \<Longrightarrow> split_lines s = [s]"
  by (induction s) auto

lemma escape_char_hd:
  "\<not> isspace c \<Longrightarrow> \<exists>h r. escape [c] = h # r \<and> \<not> isspace h \<and> (h = CHR ''-'') = (c = CHR ''-'')"
proof -
  assume n: "\<not> isspace c"
  consider "c = CHR ''&''" | "c = CHR ''<''" | "c = CHR ''>''" | "c = CHR 0x22" | "c = CHR 0x27"
    | "c \<notin> set ''&<>''" "c \<noteq> CHR 0x22" "c \<noteq> CHR 0x27"
    by auto
  then show ?thesis
  proof cases
    case 6
    then show ?thesis using escape_char_keeps [of c] n by simp
  qed (simp_all add: escape_def replace_def isspace_def)
qed

lemma is_list_item_escape: "is_list_item (escape s) = is_list_item s"
proof (induction s)
  case Nil
  show ?case by (simp add: escape_def replace_def)
next
  case (Cons c s)
  have e: "escape (c # s) = escape [c] @ escape s"
    using escape_append [of "[c]" s] by simp
  show ?case
  proof (cases "isspace c")
    case True
    then have "escape [c] = [c]" by (intro escape_char_keeps) (auto simp: isspace_def)
    then show ?thesis using True Cons e by (simp add: is_list_item_def)
  next
    case False
    then obtain h r where "escape [c] = h # r" "\<not> isspace h" "(h = CHR ''-'') = (c = CHR ''-'')"
      using escape_char_hd by blast
    then show ?thesis using False e by (simp add: is_list_item_def)
  qed
qed

lemma plain_block_escaped:
  assumes "set text \<inter> set ''/*='' = {}" and "CHR 0x0A \<notin> set text"
    and "\<not> is_list_item text"
  shows "htmlify text = Some (strip (escape text) @ ''<br>\<newline>'')"
proof -
  let ?e = "escape text"
  have l: "lstrip ''*'' text = text" using assms(1) by (intro lstrip_keep) auto
  have em: "sub_em ?e = ?e" using assms(1) by (intro sub_em_absent) auto
  have st: "sub_strong ?e = ?e" using assms(1) by (intro sub_strong_absent) auto
  have "CHR ''='' \<notin> set ?e" using assms(1) escape_set [of "CHR ''=''" "text"] by auto
  then have c: "sub_code ?e = ?e"
    unfolding sub_code_def using re_sub_span_changes [of "'' =''" "CHR ''=''" "''= ''" _ _ ?e]
    by fastforce
  have "CHR 0x0A \<notin> set ?e" using assms(2) escape_set [of "CHR 0x0A" "text"] by auto
  then have sp: "split_lines ?e = [?e]" by (rule split_lines_single)
  have "\<not> is_list_item ?e" using assms(3) by (simp add: is_list_item_escape)
  then have "line_step ([], []) ?e = Some ([], strip ?e @ ''<br>\<newline>'')"
    using line_step_text [of ?e "[]" "[]"] by simp
  then show ?thesis
    unfolding htmlify_def Let_def l em st c sp by simp
qed

text \<open>
  C5. Escaping is done once, before the marker passes, and nothing decodes it.
  \<^item> An input that holds \<^verbatim>\<open>&amp;\<close> gives an output that holds \<^verbatim>\<open>&amp;amp;\<close>.
  \<^item> Once: a one-line block without marker characters that is not a list item gives
    exactly its escaped text, trimmed, and the line break; escaping maps each
    character on its own, \<^verbatim>\<open>&\<close> to \<^verbatim>\<open>&amp;\<close>.
  \<^item> Before each pass: the first emphasis span of a block, a strong span and a code
    span (in blocks where no earlier pass applies) come out as the pass's own tags,
    not escaped, around the body escaped once. The body holds no white space and none
    of \<^verbatim>\<open>/ * = -\<close>.
\<close>

theorem ampersand_escaped_once:
  "(sublist ''&amp;'' text \<longrightarrow>
      (\<exists>out_text. htmlify text = Some out_text \<and> sublist ''&amp;amp;'' out_text)) \<and>
   (set t \<inter> set ''/*='' = {} \<and> CHR 0x0A \<notin> set t \<and> \<not> is_list_item t \<longrightarrow>
      htmlify t = Some (strip (escape t) @ ''<br>\<newline>'')) \<and>
   (CHR ''/'' \<notin> set p \<and> b \<noteq> [] \<and> set b \<inter> set ''/*=-'' = {} \<and> (\<forall>c \<in> set b. \<not> isspace c) \<longrightarrow>
      (\<exists>out_text. htmlify (p @ ''/'' @ b @ ''/'' @ q) = Some out_text \<and>
         sublist (''<em>'' @ escape b @ ''</em>'') out_text)) \<and>
   (p1 \<noteq> [] \<and> CHR ''*'' \<notin> set p1 \<and> CHR ''/'' \<notin> set (p1 @ b1 @ q1) \<and> b1 \<noteq> [] \<and>
    set b1 \<inter> set ''/*=-'' = {} \<and> (\<forall>c \<in> set b1. \<not> isspace c) \<longrightarrow>
      (\<exists>out_text. htmlify (p1 @ ''*'' @ b1 @ ''*'' @ q1) = Some out_text \<and>
         sublist (''<strong>'' @ escape b1 @ ''</strong>'') out_text)) \<and>
   (CHR ''/'' \<notin> set (p2 @ b2 @ q2) \<and> CHR ''*'' \<notin> set (p2 @ b2 @ q2) \<and> CHR ''='' \<notin> set p2 \<and>
    b2 \<noteq> [] \<and> set b2 \<inter> set ''/*=-'' = {} \<and> (\<forall>c \<in> set b2. \<not> isspace c) \<longrightarrow>
      (\<exists>out_text. htmlify (p2 @ '' ='' @ b2 @ ''= '' @ q2) = Some out_text \<and>
         sublist (''<code>'' @ escape b2 @ ''</code>'') out_text)) \<and>
   escape s = concat (map (\<lambda>c. escape [c]) s) \<and>
   escape ''&'' = ''&amp;'' \<and> escape ''&amp;'' = ''&amp;amp;''"
proof -
  have 1: "sublist ''&amp;'' text \<longrightarrow>
      (\<exists>out_text. htmlify text = Some out_text \<and> sublist ''&amp;amp;'' out_text)"
    using ampersand_kept by blast
  have 2: "set t \<inter> set ''/*='' = {} \<and> CHR 0x0A \<notin> set t \<and> \<not> is_list_item t \<longrightarrow>
      htmlify t = Some (strip (escape t) @ ''<br>\<newline>'')"
    using plain_block_escaped by blast
  have 3: "CHR ''/'' \<notin> set p \<and> b \<noteq> [] \<and> set b \<inter> set ''/*=-'' = {} \<and>
      (\<forall>c \<in> set b. \<not> isspace c) \<longrightarrow>
      (\<exists>out_text. htmlify (p @ ''/'' @ b @ ''/'' @ q) = Some out_text \<and>
         sublist (''<em>'' @ escape b @ ''</em>'') out_text)"
    using emphasis_span_escaped by blast
  have 4: "p1 \<noteq> [] \<and> CHR ''*'' \<notin> set p1 \<and> CHR ''/'' \<notin> set (p1 @ b1 @ q1) \<and> b1 \<noteq> [] \<and>
    set b1 \<inter> set ''/*=-'' = {} \<and> (\<forall>c \<in> set b1. \<not> isspace c) \<longrightarrow>
      (\<exists>out_text. htmlify (p1 @ ''*'' @ b1 @ ''*'' @ q1) = Some out_text \<and>
         sublist (''<strong>'' @ escape b1 @ ''</strong>'') out_text)"
    using strong_span_escaped by blast
  have 5: "CHR ''/'' \<notin> set (p2 @ b2 @ q2) \<and> CHR ''*'' \<notin> set (p2 @ b2 @ q2) \<and>
    CHR ''='' \<notin> set p2 \<and>
    b2 \<noteq> [] \<and> set b2 \<inter> set ''/*=-'' = {} \<and> (\<forall>c \<in> set b2. \<not> isspace c) \<longrightarrow>
      (\<exists>out_text. htmlify (p2 @ '' ='' @ b2 @ ''= '' @ q2) = Some out_text \<and>
         sublist (''<code>'' @ escape b2 @ ''</code>'') out_text)"
    using code_span_escaped by blast
  have 6: "escape s = concat (map (\<lambda>c. escape [c]) s)" by (rule escape_concat_map)
  have 7: "escape ''&'' = ''&amp;''" "escape ''&amp;'' = ''&amp;amp;''" by code_simp+
  from 1 2 3 4 5 6 7 show ?thesis by (intro conjI)
qed

theorem ampersand_escaped_once_witness:
  "sublist ''&amp;'' ''- fish &amp; chips'' \<and>
   (\<exists>out_text. htmlify ''- fish &amp; chips'' = Some out_text \<and> sublist ''&amp;amp;'' out_text) \<and>
   htmlify ''- fish &amp; chips'' = Some ''<ul><li> fish &amp;amp; chips</li>\<newline></ul>'' \<and>
   (set ''a < b & c'' \<inter> set ''/*='' = {} \<and> CHR 0x0A \<notin> set ''a < b & c'' \<and>
    \<not> is_list_item ''a < b & c'') \<and>
   htmlify ''a < b & c'' = Some (strip (escape ''a < b & c'') @ ''<br>\<newline>'') \<and>
   htmlify ''a < b & c'' = Some ''a &lt; b &amp; c<br>\<newline>'' \<and>
   (\<exists>out_text. htmlify (''x '' @ ''/'' @ ''a&b'' @ ''/'' @ '' y'') = Some out_text \<and>
      sublist (''<em>'' @ escape ''a&b'' @ ''</em>'') out_text) \<and>
   htmlify ''x /a&b/ y'' = Some ''x  <em>a&amp;b</em>  y<br>\<newline>'' \<and>
   (\<exists>out_text. htmlify (''x '' @ ''*'' @ ''<'' @ ''*'' @ '' y'') = Some out_text \<and>
      sublist (''<strong>'' @ escape ''<'' @ ''</strong>'') out_text) \<and>
   htmlify ''x *<* y'' = Some ''x  <strong>&lt;</strong>  y<br>\<newline>'' \<and>
   (\<exists>out_text. htmlify (''x'' @ '' ='' @ ''a&b'' @ ''= '' @ ''y'') = Some out_text \<and>
      sublist (''<code>'' @ escape ''a&b'' @ ''</code>'') out_text) \<and>
   htmlify ''x =a&b= y'' = Some ''x <code>a&amp;b</code> y<br>\<newline>''"
proof -
  note l = ampersand_escaped_once
    [of "''- fish &amp; chips''" "''a < b & c''" "''x ''" "''a&b''" "'' y''"
        "''x ''" "''<''" "'' y''" "''x''" "''a&b''" "''y''"]
  have h1: "sublist ''&amp;'' ''- fish &amp; chips''" by code_simp
  have h2: "set ''a < b & c'' \<inter> set ''/*='' = {} \<and> CHR 0x0A \<notin> set ''a < b & c'' \<and>
    \<not> is_list_item ''a < b & c''"
    by (simp add: is_list_item_def isspace_def)
  have h3: "CHR ''/'' \<notin> set ''x '' \<and> ''a&b'' \<noteq> [] \<and> set ''a&b'' \<inter> set ''/*=-'' = {} \<and>
    (\<forall>c \<in> set ''a&b''. \<not> isspace c)"
    by (simp add: isspace_def)
  have h4: "''x '' \<noteq> [] \<and> CHR ''*'' \<notin> set ''x '' \<and> CHR ''/'' \<notin> set (''x '' @ ''<'' @ '' y'') \<and>
    ''<'' \<noteq> [] \<and> set ''<'' \<inter> set ''/*=-'' = {} \<and> (\<forall>c \<in> set ''<''. \<not> isspace c)"
    by (simp add: isspace_def)
  have h5: "CHR ''/'' \<notin> set (''x'' @ ''a&b'' @ ''y'') \<and> CHR ''*'' \<notin> set (''x'' @ ''a&b'' @ ''y'') \<and>
    CHR ''='' \<notin> set ''x'' \<and> ''a&b'' \<noteq> [] \<and> set ''a&b'' \<inter> set ''/*=-'' = {} \<and>
    (\<forall>c \<in> set ''a&b''. \<not> isspace c)"
    by (simp add: isspace_def)
  have c1: "\<exists>out_text. htmlify ''- fish &amp; chips'' = Some out_text \<and>
      sublist ''&amp;amp;'' out_text"
    using l [THEN conjunct1] h1 by (rule mp)
  have c2: "htmlify ''a < b & c'' = Some (strip (escape ''a < b & c'') @ ''<br>\<newline>'')"
    using l [THEN conjunct2, THEN conjunct1] h2 by (rule mp)
  have c3: "\<exists>out_text. htmlify (''x '' @ ''/'' @ ''a&b'' @ ''/'' @ '' y'') = Some out_text \<and>
      sublist (''<em>'' @ escape ''a&b'' @ ''</em>'') out_text"
    using l [THEN conjunct2, THEN conjunct2, THEN conjunct1] h3 by (rule mp)
  have c4: "\<exists>out_text. htmlify (''x '' @ ''*'' @ ''<'' @ ''*'' @ '' y'') = Some out_text \<and>
      sublist (''<strong>'' @ escape ''<'' @ ''</strong>'') out_text"
    using l [THEN conjunct2, THEN conjunct2, THEN conjunct2, THEN conjunct1] h4 by (rule mp)
  have c5: "\<exists>out_text. htmlify (''x'' @ '' ='' @ ''a&b'' @ ''= '' @ ''y'') = Some out_text \<and>
      sublist (''<code>'' @ escape ''a&b'' @ ''</code>'') out_text"
    using l [THEN conjunct2, THEN conjunct2, THEN conjunct2, THEN conjunct2, THEN conjunct1] h5
    by (rule mp)
  have e1: "htmlify ''- fish &amp; chips'' = Some ''<ul><li> fish &amp;amp; chips</li>\<newline></ul>''"
    by code_simp
  have e2: "htmlify ''a < b & c'' = Some ''a &lt; b &amp; c<br>\<newline>''" by code_simp
  have e3: "htmlify ''x /a&b/ y'' = Some ''x  <em>a&amp;b</em>  y<br>\<newline>''" by code_simp
  have e4: "htmlify ''x *<* y'' = Some ''x  <strong>&lt;</strong>  y<br>\<newline>''" by code_simp
  have e5: "htmlify ''x =a&b= y'' = Some ''x <code>a&amp;b</code> y<br>\<newline>''" by code_simp
  show ?thesis
    by (rule conjI [OF h1 conjI [OF c1 conjI [OF e1 conjI [OF h2 conjI [OF c2 conjI [OF e2
         conjI [OF c3 conjI [OF e3 conjI [OF c4 conjI [OF e4 conjI [OF c5 e5]]]]]]]]]]])
qed

subsection \<open>Where the code pass applies, and where not\<close>



















end
